theory Spec2Isabelle
  imports Main "HOL-Library.Multiset" "HOL-Library.Char_ord" "HOL-Library.List_Lexorder"
    "HOL-Library.Product_Lexorder"
begin

section \<open>Denial Reason Analyzer: the cleaning rules of \<open>denial_trending.py\<close>\<close>

text \<open>
  The script merges two spreadsheets of claim denials, picks one reason code and one
  description per row (\<open>clean_reason_code\<close>), rewrites the code's prefix to \<open>CO\<close>
  (\<open>normalize_prefix\<close>), groups the rows and draws a pie chart of the ten largest groups.

  Python strings are modelled as \<open>string\<close>. The model is exact on ASCII text: a
  \<open>char\<close> below 128 is the code point of that number. Only ASCII letters change under
  \<open>upper\<close>, only the ASCII white space of Python is removed by \<open>strip\<close>, only
  \<open>0\<close>..\<open>9\<close> are digits for the pattern \<open>\d\<close>.
\<close>

subsection \<open>String primitives of Python\<close>

definition is_space :: "char \<Rightarrow> bool" where
  \<comment> \<open>\<open>str.isspace\<close> on one ASCII character: TAB, LF, VT, FF, CR, FS, GS, RS, US, space.\<close>
  "is_space c = ((of_char c :: nat) \<in> {9, 10, 11, 12, 13, 28, 29, 30, 31, 32})"

definition is_digit :: "char \<Rightarrow> bool" where
  \<comment> \<open>the pattern \<open>\d\<close> on ASCII\<close>
  "is_digit c = (48 \<le> (of_char c :: nat) \<and> (of_char c :: nat) \<le> 57)"

definition is_lower :: "char \<Rightarrow> bool" where
  "is_lower c = (97 \<le> (of_char c :: nat) \<and> (of_char c :: nat) \<le> 122)"

definition to_upper :: "char \<Rightarrow> char" where
  "to_upper c = (if is_lower c then char_of ((of_char c :: nat) - 32) else c)"

definition upper :: "string \<Rightarrow> string" where
  \<comment> \<open>\<open>s.upper()\<close>\<close>
  "upper s = map to_upper s"

definition lstrip :: "string \<Rightarrow> string" where
  "lstrip s = dropWhile is_space s"

definition rstrip :: "string \<Rightarrow> string" where
  "rstrip s = rev (dropWhile is_space (rev s))"

definition strip :: "string \<Rightarrow> string" where
  \<comment> \<open>\<open>s.strip()\<close>\<close>
  "strip s = rstrip (lstrip s)"

definition startswith :: "string \<Rightarrow> string \<Rightarrow> bool" where
  \<comment> \<open>\<open>s.startswith(p)\<close>\<close>
  "startswith s p = (take (length p) s = p)"

definition replace_char :: "char \<Rightarrow> string \<Rightarrow> string \<Rightarrow> string" where
  \<comment> \<open>\<open>s.replace(c, r)\<close> for a pattern \<open>c\<close> of one character\<close>
  "replace_char c r s = concat (map (\<lambda>x. if x = c then r else [x]) s)"

fun split_on :: "char \<Rightarrow> string \<Rightarrow> string list" where
  \<comment> \<open>\<open>s.split(sep)\<close> for a separator of one character: never the empty list\<close>
  "split_on sep [] = [[]]"
| "split_on sep (c # cs) =
     (if c = sep then [] # split_on sep cs
      else (case split_on sep cs of
              [] \<Rightarrow> [[c]]
            | w # ws \<Rightarrow> (c # w) # ws))"

subsection \<open>Prefix normalisation (\<open>normalize_prefix\<close>)\<close>

text \<open>
  \<^verbatim>\<open>re.match(r'^(PR|PI|PIB|OA)\d+', code)\<close> succeeds when some alternative is a prefix of
  the code and a digit follows it (the matcher backtracks over the alternatives).
  \<^verbatim>\<open>re.sub(r'^(PR|PI|PIB|OA)', 'CO', code)\<close> replaces the first alternative, in the
  order written, that is a prefix of the code; the anchor allows one replacement only.
\<close>

definition prefix_alternatives :: "string list" where
  "prefix_alternatives = [''PR'', ''PI'', ''PIB'', ''OA'']"

definition re_match_prefix_digits :: "string \<Rightarrow> bool" where
  "re_match_prefix_digits code =
     list_ex (\<lambda>p. startswith code p \<and>
                  (case drop (length p) code of [] \<Rightarrow> False | d # _ \<Rightarrow> is_digit d))
             prefix_alternatives"

fun re_sub_prefix :: "string list \<Rightarrow> string \<Rightarrow> string \<Rightarrow> string" where
  "re_sub_prefix [] repl code = code"
| "re_sub_prefix (p # ps) repl code =
     (if startswith code p then repl @ drop (length p) code
      else re_sub_prefix ps repl code)"

definition normalize_prefix :: "string \<Rightarrow> string" where
  \<comment> \<open>the argument is a \<open>str\<close>: the column it is applied to holds strings only\<close>
  "normalize_prefix code0 =
     (let code = upper (strip code0)
      in if re_match_prefix_digits code
         then re_sub_prefix prefix_alternatives ''CO'' code
         else code)"

subsection \<open>Spreadsheet cells and Python errors\<close>

text \<open>
  A cell of the merged table is either text or missing (\<open>NaN\<close>, which the spreadsheet
  reader gives for a blank cell). \<open>str\<close> turns the missing value into \<open>nan\<close>.
  A cell of another type reaches the cleaning function through its \<open>str\<close> text in the
  same way.
\<close>

datatype cell = Text string | NaN

fun py_str :: "cell \<Rightarrow> string" where
  "py_str (Text s) = s"
| "py_str NaN = ''nan''"

datatype py_error = IndexError | ValueError

definition bind_err :: "py_error + 'a \<Rightarrow> ('a \<Rightarrow> py_error + 'b) \<Rightarrow> py_error + 'b" where
  "bind_err m f = (case m of Inl e \<Rightarrow> Inl e | Inr x \<Rightarrow> f x)"

definition list_get :: "'a list \<Rightarrow> nat \<Rightarrow> py_error + 'a" where
  \<comment> \<open>\<open>xs[i]\<close> for an index that is not negative\<close>
  "list_get xs i = (if i < length xs then Inr (xs ! i) else Inl IndexError)"

fun list_index :: "'a list \<Rightarrow> 'a \<Rightarrow> py_error + nat" where
  \<comment> \<open>\<open>xs.index(x)\<close>: the first position of \<open>x\<close>, \<open>ValueError\<close> when absent\<close>
  "list_index [] x = Inl ValueError"
| "list_index (y # ys) x =
     (if y = x then Inr 0
      else bind_err (list_index ys x) (\<lambda>i. Inr (Suc i)))"

subsection \<open>Selecting one code and one description per row (\<open>clean_reason_code\<close>)\<close>

record row =
  reason_codes :: cell
  reason_code_descriptions :: cell
  visit_no :: "nat option"

text \<open>
  \<open>visit_no\<close> is the column \<open>Visit #\<close>: an identifier, or \<open>None\<close> for a blank cell.
\<close>

definition split_codes :: "cell \<Rightarrow> string list" where
  \<comment> \<open>line 21: the code list as split, before anything is dropped\<close>
  "split_codes rc =
     split_on (CHR '','')
       (replace_char (CHR '' '') [] (replace_char (CHR '';'') '','' (py_str rc)))"

definition split_descs :: "cell \<Rightarrow> string list" where
  \<comment> \<open>line 22\<close>
  "split_descs rd = split_on (CHR '','') (py_str rd)"

definition parsed_codes :: "cell \<Rightarrow> string list" where
  \<comment> \<open>line 23: stripped entries, without the empty ones and without \<open>nan\<close> in any case\<close>
  "parsed_codes rc =
     map strip (filter (\<lambda>c. strip c \<noteq> [] \<and> upper (strip c) \<noteq> ''NAN'') (split_codes rc))"

definition exclude_trivial :: "string list" where
  "exclude_trivial = [''PR1'', ''PR2'', ''PR3'', ''PR100'', ''CO253'']"

definition exclude_secondary :: "string list" where
  "exclude_secondary = [''CO45'', ''OA94'', ''PR94'', ''CO94'']"

definition cleaned_codes :: "cell \<Rightarrow> string list" where
  \<comment> \<open>line 29: the list \<open>codes\<close> that the selection and the description lookup use\<close>
  "cleaned_codes rc = filter (\<lambda>c. c \<notin> set exclude_trivial) (parsed_codes rc)"

fun prefix_loop :: "string list \<Rightarrow> string list \<Rightarrow> py_error + string option" where
  \<comment> \<open>lines 41-46: the loop over the prefixes, left at the first prefix that finds a code\<close>
  "prefix_loop [] cs = Inr None"
| "prefix_loop (p # ps) cs =
     (let found = filter (\<lambda>c. startswith c p) cs
      in if found \<noteq> [] then bind_err (list_get found 0) (\<lambda>c. Inr (Some c))
         else prefix_loop ps cs)"

definition py_not :: "string option \<Rightarrow> bool" where
  \<comment> \<open>\<open>not selected_code\<close>: true for \<open>None\<close> and for the empty string\<close>
  "py_not v = (case v of None \<Rightarrow> True | Some s \<Rightarrow> s = [])"

definition select_code :: "string list \<Rightarrow> py_error + string" where
  \<comment> \<open>lines 32-49\<close>
  "select_code codes =
     (if ''CO109'' \<in> set codes \<or> ''PR109'' \<in> set codes then Inr ''CO109''
      else if ''CO96'' \<in> set codes \<and> ''OA97'' \<in> set codes then Inr ''CO96''
      else
        (let filtered = filter (\<lambda>c. c \<notin> set exclude_secondary) codes;
             codes_to_consider = (if filtered \<noteq> [] then filtered else codes)
         in bind_err (prefix_loop [''CO'', ''PR'', ''PI'', ''OA''] codes_to_consider)
              (\<lambda>selected_code.
                 if py_not selected_code
                 then (if codes_to_consider \<noteq> [] then list_get codes_to_consider 0
                       else Inr ''MISSING'')
                 else Inr (the selected_code))))"

definition first_desc :: "string list \<Rightarrow> py_error + string" where
  \<comment> \<open>line 55\<close>
  "first_desc descs =
     (if descs \<noteq> [] then bind_err (list_get descs 0) (\<lambda>d. Inr (strip d))
      else Inr ''MISSING'')"

definition extract_desc :: "string list \<Rightarrow> string list \<Rightarrow> string \<Rightarrow> py_error + string" where
  \<comment> \<open>lines 52-55; \<open>and\<close> evaluates its right side only when the left side holds\<close>
  "extract_desc codes descs selected_code =
     (if selected_code \<in> set codes
      then bind_err (list_index codes selected_code) (\<lambda>i.
             if length descs \<ge> i + 1
             then bind_err (list_index codes selected_code) (\<lambda>j.
                    bind_err (list_get descs j) (\<lambda>d. Inr (strip d)))
             else first_desc descs)
      else first_desc descs)"

definition clean_reason_code :: "row \<Rightarrow> py_error + (string \<times> string)" where
  "clean_reason_code r =
     (let descs = split_descs (reason_code_descriptions r)
      in if parsed_codes (reason_codes r) = [] then Inr (''MISSING'', ''MISSING'')
         else
           (let codes = cleaned_codes (reason_codes r)
            in bind_err (select_code codes) (\<lambda>selected_code.
                 bind_err (extract_desc codes descs selected_code) (\<lambda>desc_text.
                   Inr (selected_code, desc_text)))))"

text \<open>
  Lines 60 and 61 replace missing values of the two new columns by \<open>MISSING\<close>; the
  columns hold the strings returned above, so nothing is replaced.
\<close>

subsection \<open>Derived columns, grouping and the pie chart\<close>

text \<open>
  The table operations of the script are modelled on lists of rows. \<open>df.apply\<close> runs
  the function on every row and the first exception ends the run. On a table without
  rows \<open>df.apply\<close> returns a frame with the columns of the table itself, and line 59,
  which assigns it to the two new columns, raises \<open>ValueError\<close>.
\<close>

fun map_err :: "('a \<Rightarrow> py_error + 'b) \<Rightarrow> 'a list \<Rightarrow> py_error + 'b list" where
  "map_err f [] = Inr []"
| "map_err f (x # xs) =
     bind_err (f x) (\<lambda>y. bind_err (map_err f xs) (\<lambda>ys. Inr (y # ys)))"

record derived_row =
  cleaned_code :: string
  cleaned_description :: string
  visit :: "nat option"

definition clean_row :: "row \<Rightarrow> py_error + derived_row" where
  \<comment> \<open>line 59: the two new columns of one row\<close>
  "clean_row r =
     bind_err (clean_reason_code r) (\<lambda>(c, d).
       Inr \<lparr>cleaned_code = c, cleaned_description = d, visit = visit_no r\<rparr>)"

definition normalized_code :: "derived_row \<Rightarrow> string" where
  \<comment> \<open>line 72\<close>
  "normalized_code t = normalize_prefix (cleaned_code t)"

fun drop_duplicates :: "(string \<times> string) list \<Rightarrow> (string \<times> string) list" where
  \<comment> \<open>\<open>drop_duplicates(subset=['Cleaned Code'])\<close>: the first row of every code stays\<close>
  "drop_duplicates [] = []"
| "drop_duplicates (x # xs) = x # drop_duplicates (filter (\<lambda>y. fst y \<noteq> fst x) xs)"

definition co_dict :: "derived_row list \<Rightarrow> (string \<rightharpoonup> string)" where
  \<comment> \<open>lines 75-77\<close>
  "co_dict t =
     map_of (drop_duplicates
       (map (\<lambda>x. (cleaned_code x, cleaned_description x))
            (filter (\<lambda>x. startswith (cleaned_code x) ''CO'') t)))"

definition get_final_description :: "(string \<rightharpoonup> string) \<Rightarrow> derived_row \<Rightarrow> string" where
  \<comment> \<open>lines 79-84\<close>
  "get_final_description m t =
     (case m (normalized_code t) of
        Some d \<Rightarrow> d
      | None \<Rightarrow> cleaned_description t)"

type_synonym group_key = "string \<times> string"

definition group_key_of :: "(string \<rightharpoonup> string) \<Rightarrow> derived_row \<Rightarrow> group_key" where
  \<comment> \<open>the columns \<open>Normalized Code\<close> and \<open>Final Description\<close> of a row\<close>
  "group_key_of m t = (normalized_code t, get_final_description m t)"

definition nunique :: "'v option list \<Rightarrow> nat" where
  \<comment> \<open>\<open>nunique()\<close>: the number of distinct values, the missing ones not counted\<close>
  "nunique vs = length (remdups (concat (map (\<lambda>v. case v of None \<Rightarrow> [] | Some x \<Rightarrow> [x]) vs)))"

definition group_counts :: "('k::linorder \<times> 'v option) list \<Rightarrow> ('k \<times> nat) list" where
  \<comment> \<open>\<open>groupby(keys)['Visit #'].nunique().reset_index()\<close>: one row for every key, the
      keys in ascending order (strings compare by code point, pairs by their first
      component first)\<close>
  "group_counts kvs =
     map (\<lambda>k. (k, nunique (map snd (filter (\<lambda>kv. fst kv = k) kvs))))
         (sort (remdups (map fst kvs)))"

definition sort_desc :: "('k \<times> nat) list \<Rightarrow> ('k \<times> nat) list" where
  \<comment> \<open>\<open>sort_values(by='Distinct Claims', ascending=False)\<close>: the rows are reversed,
      sorted in ascending order and reversed again\<close>
  "sort_desc s = rev (sort_key snd (rev s))"

text \<open>
  \<open>sort_key\<close> is a stable insertion sort, so \<open>sort_desc\<close> leaves groups of equal count
  in the order of their keys. The default sorting algorithm of the source is not stable
  on long tables, where groups of equal count may come in another order; the column of
  counts is the same for every such order (lemmas \<open>counts_sort_desc\<close> and
  \<open>counts_of_any_descending_order\<close> below).
\<close>

definition keyed_rows :: "derived_row list \<Rightarrow> (group_key \<times> nat option) list" where
  "keyed_rows t = map (\<lambda>x. (group_key_of (co_dict t) x, visit x)) t"

definition cleaned_table :: "row list \<Rightarrow> py_error + derived_row list" where
  \<comment> \<open>line 59 on the whole table\<close>
  "cleaned_table df = (if df = [] then Inl ValueError else map_err clean_row df)"

definition final_summary :: "row list \<Rightarrow> py_error + (group_key \<times> nat) list" where
  \<comment> \<open>lines 59-95\<close>
  "final_summary df =
     bind_err (cleaned_table df) (\<lambda>t. Inr (sort_desc (group_counts (keyed_rows t))))"

definition others_sum :: "(group_key \<times> nat) list \<Rightarrow> nat" where
  \<comment> \<open>line 114\<close>
  "others_sum s = sum_list (map snd (drop 10 s))"

definition final_df :: "(group_key \<times> nat) list \<Rightarrow> (group_key \<times> nat) list" where
  \<comment> \<open>lines 113-124: the rows of the pie chart\<close>
  "final_df s =
     (let top10 = take 10 s
      in if others_sum s > 0
         then top10 @ [((''Others'', ''All remaining reasons''), others_sum s)]
         else top10)"

definition pie_slices :: "(group_key \<times> nat) list \<Rightarrow> (string \<times> nat) list" where
  \<comment> \<open>lines 127-130: the labels and the values of the chart\<close>
  "pie_slices s = map (\<lambda>x. (fst (fst x), snd x)) (final_df s)"

definition distinct_visits :: "row list \<Rightarrow> nat" where
  \<comment> \<open>the number of distinct visit identifiers of the merged table\<close>
  "distinct_visits df = nunique (map visit_no df)"

subsection \<open>The selection rule as the specification words it\<close>

text \<open>
  The priority cascade of the specification over the cleaned code list: \<open>CO109\<close> when
  \<open>CO109\<close> or \<open>PR109\<close> is present; else \<open>CO96\<close> when \<open>CO96\<close> and \<open>OA97\<close> are
  both present; else, after the secondary exclusions (undone when they leave nothing), the
  first code with prefix \<open>CO\<close>, else \<open>PR\<close>, else \<open>PI\<close>, else \<open>OA\<close>, else the first
  remaining code, else \<open>MISSING\<close>.
\<close>

definition first_with_prefix :: "string \<Rightarrow> string list \<Rightarrow> string option" where
  "first_with_prefix p cs = find (\<lambda>c. startswith c p) cs"

definition pick_by_prefix_order :: "string list \<Rightarrow> string" where
  "pick_by_prefix_order remaining =
     (case first_with_prefix ''CO'' remaining of Some c \<Rightarrow> c | None \<Rightarrow>
     (case first_with_prefix ''PR'' remaining of Some c \<Rightarrow> c | None \<Rightarrow>
     (case first_with_prefix ''PI'' remaining of Some c \<Rightarrow> c | None \<Rightarrow>
     (case first_with_prefix ''OA'' remaining of Some c \<Rightarrow> c | None \<Rightarrow>
     (case remaining of c # _ \<Rightarrow> c | [] \<Rightarrow> ''MISSING'')))))"

definition priority_cascade :: "string list \<Rightarrow> string" where
  "priority_cascade codes =
     (if ''CO109'' \<in> set codes \<or> ''PR109'' \<in> set codes then ''CO109''
      else if ''CO96'' \<in> set codes \<and> ''OA97'' \<in> set codes then ''CO96''
      else
        (let kept = filter (\<lambda>c. c \<notin> {''CO45'', ''OA94'', ''PR94'', ''CO94''}) codes
         in pick_by_prefix_order (if kept = [] then codes else kept)))"

text \<open>
  The description at the position of the selected code, \<open>d0\<close> when the code is absent or
  the position is out of range.
\<close>

definition desc_at :: "string list \<Rightarrow> string list \<Rightarrow> string \<Rightarrow> string \<Rightarrow> string" where
  "desc_at codes descs d0 sel =
     (case list_index codes sel of
        Inr i \<Rightarrow> if i < length descs then descs ! i else d0
      | Inl e \<Rightarrow> d0)"

subsection \<open>The code list as the claim words it\<close>

text \<open>
  \<open>claimed_code_list\<close> is the parsed code list in the words of claim C1: the text is
  split at every comma and semicolon, spaces are removed, the entries that are empty or
  read \<open>NAN\<close> (in capitals or not) are dropped, and the trivial codes are excluded.
  \<open>parsed_code_list\<close> differs in one step: other white space at the two ends of an
  entry is stripped as well.
\<close>

fun split_where :: "(char \<Rightarrow> bool) \<Rightarrow> string \<Rightarrow> string list" where
  "split_where sep [] = [[]]"
| "split_where sep (c # cs) =
     (if sep c then [] # split_where sep cs
      else (case split_where sep cs of
              [] \<Rightarrow> [[c]]
            | w # ws \<Rightarrow> (c # w) # ws))"

definition code_entries :: "string \<Rightarrow> string list" where
  "code_entries text =
     map (filter (\<lambda>c. c \<noteq> CHR '' ''))
         (split_where (\<lambda>c. c = CHR '','' \<or> c = CHR '';'') text)"

definition claimed_code_list :: "string \<Rightarrow> string list" where
  "claimed_code_list text =
     filter (\<lambda>c. c \<notin> {''PR1'', ''PR2'', ''PR3'', ''PR100'', ''CO253''})
       (filter (\<lambda>c. c \<noteq> [] \<and> upper c \<noteq> ''NAN'') (code_entries text))"

definition parsed_code_list :: "string \<Rightarrow> string list" where
  "parsed_code_list text =
     filter (\<lambda>c. c \<notin> {''PR1'', ''PR2'', ''PR3'', ''PR100'', ''CO253''})
       (filter (\<lambda>c. c \<noteq> [] \<and> upper c \<noteq> ''NAN'') (map strip (code_entries text)))"

text \<open>
  The claims outside the top 10: all counts together, less the ten largest counts.
\<close>

definition counts_outside_top10 :: "nat list \<Rightarrow> nat" where
  "counts_outside_top10 ns = sum_list ns - sum_list (take 10 (rev (sort ns)))"

subsection \<open>Notions the claims use\<close>

text \<open>
  \<open>one_group_per_visit\<close>: every visit identifier that is present occurs under one group
  key only. \<open>has_others\<close>: the chart has a slice with the label \<open>Others\<close>.
\<close>

definition one_group_per_visit :: "('k \<times> 'v option) list \<Rightarrow> bool" where
  "one_group_per_visit kvs =
     (\<forall>a \<in> set kvs. \<forall>b \<in> set kvs. snd a \<noteq> None \<and> snd a = snd b \<longrightarrow> fst a = fst b)"

definition has_others :: "(group_key \<times> nat) list \<Rightarrow> bool" where
  "has_others s = (''Others'' \<in> fst ` set (pie_slices s))"

subsection \<open>Example rows and tables\<close>

text \<open>
  Concrete inputs for the examples below: single rows, a table of three rows, and a table
  of eleven rows with eleven different codes whose last row has the visit \<open>v\<close>.
\<close>

definition example_row :: "string \<Rightarrow> string \<Rightarrow> row" where
  "example_row codes descs =
     \<lparr>reason_codes = Text codes, reason_code_descriptions = Text descs, visit_no = Some 1\<rparr>"


definition nan_description_row :: row where
  "nan_description_row =
     \<lparr>reason_codes = Text ''CO45'', reason_code_descriptions = NaN, visit_no = Some 1\<rparr>"

definition newline_row :: row where
  "newline_row =
     \<lparr>reason_codes = Text (''CO45'' @ [CHR 0x0A]), reason_code_descriptions = Text ''a'',
      visit_no = Some 1\<rparr>"

definition visit_row :: "string \<Rightarrow> nat option \<Rightarrow> row" where
  "visit_row code v =
     \<lparr>reason_codes = Text code, reason_code_descriptions = Text ''d'', visit_no = v\<rparr>"

definition three_rows :: "row list" where
  "three_rows =
     [visit_row ''CO45'' (Some 1), visit_row ''CO45'' (Some 1), visit_row ''PR96'' (Some 2)]"

definition three_cleaned :: "derived_row list" where
  "three_cleaned =
     [\<lparr>cleaned_code = ''CO45'', cleaned_description = ''d'', visit = Some 1\<rparr>,
      \<lparr>cleaned_code = ''CO45'', cleaned_description = ''d'', visit = Some 1\<rparr>,
      \<lparr>cleaned_code = ''PR96'', cleaned_description = ''d'', visit = Some 2\<rparr>]"

definition eleven_rows :: "nat option \<Rightarrow> row list" where
  "eleven_rows v =
     [visit_row ''PR10'' (Some 1), visit_row ''PR11'' (Some 2), visit_row ''PR12'' (Some 3),
      visit_row ''PR13'' (Some 4), visit_row ''PR14'' (Some 5), visit_row ''PR15'' (Some 6),
      visit_row ''PR16'' (Some 7), visit_row ''PR17'' (Some 8), visit_row ''PR18'' (Some 9),
      visit_row ''PR19'' (Some 10), visit_row ''PR20'' v]"

definition eleven_keyed :: "nat option \<Rightarrow> (group_key \<times> nat option) list" where
  "eleven_keyed v =
     [((''CO10'', ''d''), Some 1), ((''CO11'', ''d''), Some 2), ((''CO12'', ''d''), Some 3),
      ((''CO13'', ''d''), Some 4), ((''CO14'', ''d''), Some 5), ((''CO15'', ''d''), Some 6),
      ((''CO16'', ''d''), Some 7), ((''CO17'', ''d''), Some 8), ((''CO18'', ''d''), Some 9),
      ((''CO19'', ''d''), Some 10), ((''CO20'', ''d''), v)]"

definition eleven_summary_missing :: "(group_key \<times> nat) list" where
  "eleven_summary_missing =
     [((''CO10'', ''d''), 1), ((''CO11'', ''d''), 1), ((''CO12'', ''d''), 1),
      ((''CO13'', ''d''), 1), ((''CO14'', ''d''), 1), ((''CO15'', ''d''), 1),
      ((''CO16'', ''d''), 1), ((''CO17'', ''d''), 1), ((''CO18'', ''d''), 1),
      ((''CO19'', ''d''), 1), ((''CO20'', ''d''), 0)]"

definition eleven_summary_present :: "(group_key \<times> nat) list" where
  "eleven_summary_present =
     [((''CO10'', ''d''), 1), ((''CO11'', ''d''), 1), ((''CO12'', ''d''), 1),
      ((''CO13'', ''d''), 1), ((''CO14'', ''d''), 1), ((''CO15'', ''d''), 1),
      ((''CO16'', ''d''), 1), ((''CO17'', ''d''), 1), ((''CO18'', ''d''), 1),
      ((''CO19'', ''d''), 1), ((''CO20'', ''d''), 1)]"

section \<open>Properties\<close>

subsection \<open>Strings and prefix normalisation\<close>

lemma to_upper_idem: "to_upper (to_upper c) = to_upper c"
  by (auto simp: to_upper_def is_lower_def)

lemma is_space_to_upper: "is_space (to_upper c) = is_space c"
  by (auto simp: to_upper_def is_lower_def is_space_def)

lemma upper_idem: "upper (upper s) = upper s"
  by (simp add: upper_def to_upper_idem)

lemma upper_append: "upper (xs @ ys) = upper xs @ upper ys"
  by (simp add: upper_def)

lemma upper_drop: "upper (drop n s) = drop n (upper s)"
  by (simp add: upper_def drop_map)

lemma lstrip_upper: "lstrip (upper s) = upper (lstrip s)"
  by (simp add: lstrip_def upper_def dropWhile_map comp_def is_space_to_upper)

lemma rstrip_upper: "rstrip (upper s) = upper (rstrip s)"
  by (simp add: rstrip_def upper_def dropWhile_map comp_def is_space_to_upper rev_map)

lemma strip_upper: "strip (upper s) = upper (strip s)"
  by (simp add: strip_def lstrip_upper rstrip_upper)

lemma lstrip_id_iff: "lstrip s = s \<longleftrightarrow> s = [] \<or> \<not> is_space (hd s)"
  by (simp add: lstrip_def dropWhile_eq_self_iff)

lemma rstrip_id_iff: "rstrip s = s \<longleftrightarrow> s = [] \<or> \<not> is_space (last s)"
proof -
  have "rstrip s = s \<longleftrightarrow> dropWhile is_space (rev s) = rev s"
    unfolding rstrip_def by (metis rev_rev_ident)
  then show ?thesis
    by (simp add: dropWhile_eq_self_iff hd_rev)
qed

lemma rstrip_rstrip: "rstrip (rstrip s) = rstrip s"
  by (simp add: rstrip_def)

lemma rstrip_is_prefix: "\<exists>ys. s = rstrip s @ ys"
proof -
  have "rev s = takeWhile is_space (rev s) @ dropWhile is_space (rev s)"
    by simp
  then have "s = rev (dropWhile is_space (rev s)) @ rev (takeWhile is_space (rev s))"
    by (metis rev_append rev_rev_ident)
  then show ?thesis
    unfolding rstrip_def by blast
qed

lemma strip_fixed:
  assumes "\<not> is_space (hd s)" "\<not> is_space (last s)"
  shows "strip s = s"
proof -
  have "lstrip s = s" using assms(1) by (simp add: lstrip_id_iff)
  moreover have "rstrip s = s" using assms(2) by (simp add: rstrip_id_iff)
  ultimately show ?thesis by (simp add: strip_def)
qed

lemma strip_Nil: "strip [] = []"
  by (simp add: strip_def lstrip_def rstrip_def)

lemma last_strip: "strip s \<noteq> [] \<Longrightarrow> \<not> is_space (last (strip s))"
  using rstrip_id_iff [of "rstrip (lstrip s)"] by (simp add: strip_def rstrip_rstrip)

lemma hd_strip: "strip s \<noteq> [] \<Longrightarrow> \<not> is_space (hd (strip s))"
proof -
  assume ne: "strip s \<noteq> []"
  obtain ys where ys: "lstrip s = strip s @ ys"
    using rstrip_is_prefix [of "lstrip s"] by (auto simp: strip_def)
  with ne have "hd (strip s) = hd (lstrip s)" by (metis hd_append2)
  moreover from ys ne have "lstrip s \<noteq> []" by auto
  then have "\<not> is_space (hd (lstrip s))"
    unfolding lstrip_def by (rule hd_dropWhile)
  ultimately show ?thesis by simp
qed

lemma strip_idem: "strip (strip s) = strip s"
proof (cases "strip s = []")
  case True
  then show ?thesis by (simp only: strip_Nil)
next
  case False
  then show ?thesis by (intro strip_fixed hd_strip last_strip)
qed

lemma re_match_iff:
  "re_match_prefix_digits c \<longleftrightarrow>
     (\<exists>p \<in> set prefix_alternatives. \<exists>d rest. c = p @ d # rest \<and> is_digit d)"
proof
  assume "re_match_prefix_digits c"
  then obtain p where p: "p \<in> set prefix_alternatives" "startswith c p"
    and d: "(case drop (length p) c of [] \<Rightarrow> False | d # _ \<Rightarrow> is_digit d)"
    unfolding re_match_prefix_digits_def list_ex_iff by blast
  from d obtain d' rest where dr: "drop (length p) c = d' # rest" "is_digit d'"
    by (auto split: list.splits)
  from p(2) have "c = p @ drop (length p) c"
    unfolding startswith_def by (metis append_take_drop_id)
  with dr p(1) show "\<exists>p \<in> set prefix_alternatives. \<exists>d rest. c = p @ d # rest \<and> is_digit d"
    by auto
next
  assume "\<exists>p \<in> set prefix_alternatives. \<exists>d rest. c = p @ d # rest \<and> is_digit d"
  then obtain p d rest where "p \<in> set prefix_alternatives" "c = p @ d # rest" "is_digit d"
    by blast
  then have "p \<in> set prefix_alternatives \<and> startswith c p \<and>
      (case drop (length p) c of [] \<Rightarrow> False | d # _ \<Rightarrow> is_digit d)"
    by (simp add: startswith_def)
  then show "re_match_prefix_digits c"
    unfolding re_match_prefix_digits_def list_ex_iff by blast
qed

lemma re_sub_of_match:
  assumes "re_match_prefix_digits c"
  shows "re_sub_prefix prefix_alternatives ''CO'' c = ''CO'' @ drop 2 c \<and> drop 2 c \<noteq> []"
proof -
  from assms obtain p d rest where p: "p \<in> set prefix_alternatives" and c: "c = p @ d # rest"
    unfolding re_match_iff by blast
  from p have "p = ''PR'' \<or> p = ''PI'' \<or> p = ''PIB'' \<or> p = ''OA''"
    by (simp add: prefix_alternatives_def)
  with c show ?thesis
    by (auto simp: prefix_alternatives_def startswith_def)
qed

lemma no_match_CO: "\<not> re_match_prefix_digits (CHR ''C'' # t)"
  by (simp add: re_match_prefix_digits_def prefix_alternatives_def startswith_def)

lemma rstrip_Cons: "\<not> is_space b \<Longrightarrow> rstrip (a # b # t) = a # b # rstrip t"
  by (auto simp: rstrip_def dropWhile_append)

lemma strip_CO: "strip (CHR ''C'' # CHR ''O'' # t) = CHR ''C'' # CHR ''O'' # rstrip t"
proof -
  have "lstrip (CHR ''C'' # CHR ''O'' # t) = CHR ''C'' # CHR ''O'' # t"
    by (simp add: lstrip_def is_space_def)
  moreover have "\<not> is_space (CHR ''O'')" by (simp add: is_space_def)
  ultimately show ?thesis by (simp add: strip_def rstrip_Cons)
qed

lemma normalize_prefix_CO:
  assumes "startswith x ''CO''"
  shows "normalize_prefix x = upper (strip x)"
proof -
  from assms obtain t where x: "x = CHR ''C'' # CHR ''O'' # t"
    unfolding startswith_def by (cases x; cases "tl x") auto
  have "upper (strip x) = CHR ''C'' # CHR ''O'' # upper (rstrip t)"
    by (simp add: x strip_CO upper_def to_upper_def is_lower_def)
  then show ?thesis
    by (simp add: normalize_prefix_def no_match_CO)
qed

lemma normalize_prefix_cases:
  "(\<not> re_match_prefix_digits (upper (strip s)) \<and> normalize_prefix s = upper (strip s)) \<or>
   (re_match_prefix_digits (upper (strip s)) \<and>
      normalize_prefix s = ''CO'' @ drop 2 (upper (strip s)) \<and> drop 2 (upper (strip s)) \<noteq> [])"
proof (cases "re_match_prefix_digits (upper (strip s))")
  case True
  with re_sub_of_match [OF True] show ?thesis
    by (simp add: normalize_prefix_def)
next
  case False
  then show ?thesis by (simp add: normalize_prefix_def)
qed

lemma normalize_prefix_fixed:
  "upper (strip (normalize_prefix s)) = normalize_prefix s"
proof -
  let ?c = "upper (strip s)"
  have c_fix: "upper (strip ?c) = ?c"
    by (simp add: strip_upper strip_idem upper_idem)
  consider (plain) "normalize_prefix s = ?c"
    | (sub) "normalize_prefix s = ''CO'' @ drop 2 ?c" "drop 2 ?c \<noteq> []"
    using normalize_prefix_cases [of s] by blast
  then show ?thesis
  proof cases
    case plain
    then show ?thesis by (simp add: c_fix)
  next
    case sub
    let ?r = "''CO'' @ drop 2 ?c"
    from sub(2) have ne: "?c \<noteq> []" by auto
    have "strip ?c = ?c"
      by (simp add: strip_upper strip_idem)
    with ne have "\<not> is_space (last ?c)"
      using last_strip [of ?c] by simp
    moreover have "last ?r = last ?c"
      using sub(2) by (simp add: last_drop)
    ultimately have "\<not> is_space (last ?r)" by simp
    moreover have "\<not> is_space (hd ?r)" by (simp add: is_space_def)
    ultimately have "strip ?r = ?r" by (intro strip_fixed)
    moreover have "upper ''CO'' = ''CO''"
      by (simp add: upper_def to_upper_def is_lower_def)
    then have "upper ?r = ?r"
      by (simp only: upper_append upper_drop upper_idem)
    ultimately show ?thesis by (simp add: sub(1))
  qed
qed

lemma normalize_prefix_idem: "normalize_prefix (normalize_prefix s) = normalize_prefix s"
proof -
  let ?c = "upper (strip s)"
  consider (plain) "\<not> re_match_prefix_digits ?c" "normalize_prefix s = ?c"
    | (sub) "normalize_prefix s = ''CO'' @ drop 2 ?c"
    using normalize_prefix_cases [of s] by blast
  then show ?thesis
  proof cases
    case plain
    have "upper (strip ?c) = ?c"
      by (simp add: strip_upper strip_idem upper_idem)
    with plain show ?thesis by (simp add: normalize_prefix_def)
  next
    case sub
    then have "startswith (normalize_prefix s) ''CO''" by (simp add: startswith_def)
    then show ?thesis by (simp add: normalize_prefix_CO normalize_prefix_fixed)
  qed
qed

subsection \<open>Code selection\<close>

lemma split_on_not_Nil: "split_on sep s \<noteq> []"
  by (induction s) (auto split: list.splits)

lemma list_get_0: "list_get (x # xs) 0 = Inr x"
  by (simp add: list_get_def)

lemma find_by_filter: "find P xs = (case filter P xs of [] \<Rightarrow> None | x # _ \<Rightarrow> Some x)"
  by (induction xs) auto

lemma prefix_loop_step:
  "prefix_loop (p # ps) cs =
     (case first_with_prefix p cs of Some c \<Rightarrow> Inr (Some c) | None \<Rightarrow> prefix_loop ps cs)"
  by (cases "filter (\<lambda>c. startswith c p) cs")
     (simp_all add: first_with_prefix_def find_by_filter bind_err_def list_get_0)

lemma first_with_prefix_Some:
  "first_with_prefix p cs = Some c \<Longrightarrow> c \<in> set cs \<and> startswith c p"
  unfolding first_with_prefix_def by (auto simp: find_Some_iff)

lemma startswith_not_Nil: "startswith c p \<Longrightarrow> p \<noteq> [] \<Longrightarrow> c \<noteq> []"
  by (auto simp: startswith_def)

lemma first_with_prefix_not_Nil: "first_with_prefix p cs = Some c \<Longrightarrow> p \<noteq> [] \<Longrightarrow> c \<noteq> []"
  using first_with_prefix_Some startswith_not_Nil by blast

lemma fallback_eq:
  "(if cs \<noteq> [] then list_get cs 0 else Inr ''MISSING'') =
   Inr (case cs of c # _ \<Rightarrow> c | [] \<Rightarrow> ''MISSING'')"
  by (cases cs) (simp_all add: list_get_0)

lemma prefix_loop_Nil: "prefix_loop [] cs = Inr None"
  by simp

lemma prefix_loop_order:
  "prefix_loop [''CO'', ''PR'', ''PI'', ''OA''] cs =
     Inr (case first_with_prefix ''CO'' cs of Some c \<Rightarrow> Some c | None \<Rightarrow>
         (case first_with_prefix ''PR'' cs of Some c \<Rightarrow> Some c | None \<Rightarrow>
         (case first_with_prefix ''PI'' cs of Some c \<Rightarrow> Some c | None \<Rightarrow>
          first_with_prefix ''OA'' cs)))"
  by (simp only: prefix_loop_step prefix_loop_Nil split: option.splits) simp

lemma select_tail:
  "bind_err (prefix_loop [''CO'', ''PR'', ''PI'', ''OA''] cs)
     (\<lambda>selected_code.
        if py_not selected_code
        then (if cs \<noteq> [] then list_get cs 0 else Inr ''MISSING'')
        else Inr (the selected_code)) = Inr (pick_by_prefix_order cs)"
proof -
  have some: "py_not (Some c) = False" if "first_with_prefix p cs = Some c" "p \<noteq> []" for p c
    using first_with_prefix_not_Nil [OF that] by (simp add: py_not_def)
  have none: "py_not None" by (simp add: py_not_def)
  show ?thesis
  proof (cases "first_with_prefix ''CO'' cs")
    case (Some c)
    then show ?thesis
      by (simp add: prefix_loop_order bind_err_def pick_by_prefix_order_def some
                      del: prefix_loop.simps)
  next
    case co: None
    show ?thesis
    proof (cases "first_with_prefix ''PR'' cs")
      case (Some c)
      then show ?thesis
        by (simp add: prefix_loop_order bind_err_def pick_by_prefix_order_def some co
                      del: prefix_loop.simps)
    next
      case pr: None
      show ?thesis
      proof (cases "first_with_prefix ''PI'' cs")
        case (Some c)
        then show ?thesis
          by (simp add: prefix_loop_order bind_err_def pick_by_prefix_order_def some co pr
                      del: prefix_loop.simps)
      next
        case pi: None
        show ?thesis
        proof (cases "first_with_prefix ''OA'' cs")
          case (Some c)
          then show ?thesis
            by (simp add: prefix_loop_order bind_err_def pick_by_prefix_order_def some co pr pi
                      del: prefix_loop.simps)
        next
          case None
          then show ?thesis
            by (simp add: prefix_loop_order bind_err_def pick_by_prefix_order_def co pr pi
                          none fallback_eq del: prefix_loop.simps)
        qed
      qed
    qed
  qed
qed

lemma select_code_cascade: "select_code codes = Inr (priority_cascade codes)"
proof -
  have sec: "(\<lambda>c. c \<notin> set exclude_secondary) = (\<lambda>c. c \<notin> {''CO45'', ''OA94'', ''PR94'', ''CO94''})"
    by (simp add: exclude_secondary_def)
  let ?kept = "filter (\<lambda>c. c \<notin> {''CO45'', ''OA94'', ''PR94'', ''CO94''}) codes"
  consider (a) "''CO109'' \<in> set codes \<or> ''PR109'' \<in> set codes"
    | (b) "\<not> (''CO109'' \<in> set codes \<or> ''PR109'' \<in> set codes)"
          "''CO96'' \<in> set codes \<and> ''OA97'' \<in> set codes"
    | (c) "\<not> (''CO109'' \<in> set codes \<or> ''PR109'' \<in> set codes)"
          "\<not> (''CO96'' \<in> set codes \<and> ''OA97'' \<in> set codes)" "?kept = []"
    | (d) "\<not> (''CO109'' \<in> set codes \<or> ''PR109'' \<in> set codes)"
          "\<not> (''CO96'' \<in> set codes \<and> ''OA97'' \<in> set codes)" "?kept \<noteq> []"
    by blast
  then show ?thesis
  proof cases
    case a
    then show ?thesis unfolding select_code_def priority_cascade_def
      by (simp only: simp_thms if_True)
  next
    case b
    then show ?thesis unfolding select_code_def priority_cascade_def
      by (simp only: simp_thms if_True if_False)
  next
    case c
    then show ?thesis unfolding select_code_def priority_cascade_def sec Let_def
      using select_tail [of codes] by (simp only: simp_thms if_True if_False)
  next
    case d
    then show ?thesis unfolding select_code_def priority_cascade_def sec Let_def
      using select_tail [of ?kept] by (simp only: simp_thms if_True if_False)
  qed
qed

lemma list_index_absent: "x \<notin> set xs \<Longrightarrow> list_index xs x = Inl ValueError"
proof (induction xs)
  case Nil
  then show ?case by simp
next
  case (Cons y ys)
  then have "y \<noteq> x" "list_index ys x = Inl ValueError" by auto
  then show ?case by (simp add: bind_err_def)
qed

lemma list_index_present:
  "x \<in> set xs \<Longrightarrow> \<exists>i. list_index xs x = Inr i \<and> i < length xs \<and> xs ! i = x"
proof (induction xs)
  case Nil
  then show ?case by simp
next
  case (Cons y ys)
  show ?case
  proof (cases "y = x")
    case True
    then show ?thesis by simp
  next
    case False
    with Cons obtain i where i: "list_index ys x = Inr i" "i < length ys" "ys ! i = x"
      by auto
    from False i have "list_index (y # ys) x = Inr (Suc i)"
      by (simp add: bind_err_def)
    with i show ?thesis by simp
  qed
qed

lemma first_desc_Cons: "first_desc (d0 # ds) = Inr (strip d0)"
  by (simp add: first_desc_def list_get_0 bind_err_def)

lemma extract_desc_eq:
  "extract_desc codes (d0 # ds) sel = Inr (strip (desc_at codes (d0 # ds) d0 sel))"
proof (cases "sel \<in> set codes")
  case True
  from list_index_present [OF this] obtain i where i: "list_index codes sel = Inr i"
    by (elim exE conjE)
  show ?thesis
  proof (cases "i < length (d0 # ds)")
    case True
    have e: "extract_desc codes (d0 # ds) sel = Inr (strip ((d0 # ds) ! i))"
      unfolding extract_desc_def using \<open>sel \<in> set codes\<close> i True
      by (simp add: bind_err_def list_get_def)
    have d: "desc_at codes (d0 # ds) d0 sel = (d0 # ds) ! i"
      using i True by (simp add: desc_at_def)
    show ?thesis unfolding e d by (rule refl)
  next
    case False
    have e: "extract_desc codes (d0 # ds) sel = Inr (strip d0)"
      unfolding extract_desc_def using \<open>sel \<in> set codes\<close> i False
      by (simp add: bind_err_def first_desc_Cons)
    have d: "desc_at codes (d0 # ds) d0 sel = d0"
      using i False by (simp add: desc_at_def)
    show ?thesis unfolding e d by (rule refl)
  qed
next
  case False
  have e: "extract_desc codes (d0 # ds) sel = Inr (strip d0)"
    unfolding extract_desc_def using False by (simp add: first_desc_Cons)
  have d: "desc_at codes (d0 # ds) d0 sel = d0"
    using False by (simp add: desc_at_def list_index_absent)
  show ?thesis unfolding e d by (rule refl)
qed

lemma split_descs_Cons: "\<exists>d0 ds. split_descs rd = d0 # ds"
  using split_on_not_Nil [of "CHR '',''" "py_str rd"]
  by (cases "split_descs rd") (simp_all add: split_descs_def)

lemma clean_reason_code_eq:
  assumes "split_descs (reason_code_descriptions r) = d0 # ds"
  shows "clean_reason_code r =
     (if parsed_codes (reason_codes r) = [] then Inr (''MISSING'', ''MISSING'')
      else Inr (priority_cascade (cleaned_codes (reason_codes r)),
                strip (desc_at (cleaned_codes (reason_codes r)) (d0 # ds) d0
                         (priority_cascade (cleaned_codes (reason_codes r))))))"
  unfolding clean_reason_code_def assms Let_def select_code_cascade extract_desc_eq
  by (simp add: bind_err_def)

lemma priority_cascade_Nil: "priority_cascade [] = ''MISSING''"
  by (simp add: priority_cascade_def pick_by_prefix_order_def first_with_prefix_def)

lemma cleaned_codes_Nil: "parsed_codes rc = [] \<Longrightarrow> cleaned_codes rc = []"
  by (simp add: cleaned_codes_def)

lemma pick_by_prefix_order_cases:
  "(\<exists>p. first_with_prefix p cs = Some (pick_by_prefix_order cs)) \<or>
   pick_by_prefix_order cs = (case cs of c # _ \<Rightarrow> c | [] \<Rightarrow> ''MISSING'')"
proof (cases "first_with_prefix ''CO'' cs")
  case (Some c)
  then have "first_with_prefix ''CO'' cs = Some (pick_by_prefix_order cs)"
    by (simp add: pick_by_prefix_order_def)
  then show ?thesis by (intro disjI1 exI)
next
  case co: None
  show ?thesis
  proof (cases "first_with_prefix ''PR'' cs")
    case (Some c)
    then have "first_with_prefix ''PR'' cs = Some (pick_by_prefix_order cs)"
      by (simp add: pick_by_prefix_order_def co)
    then show ?thesis by (intro disjI1 exI)
  next
    case pr: None
    show ?thesis
    proof (cases "first_with_prefix ''PI'' cs")
      case (Some c)
      then have "first_with_prefix ''PI'' cs = Some (pick_by_prefix_order cs)"
        by (simp add: pick_by_prefix_order_def co pr)
      then show ?thesis by (intro disjI1 exI)
    next
      case pi: None
      show ?thesis
      proof (cases "first_with_prefix ''OA'' cs")
        case (Some c)
        then have "first_with_prefix ''OA'' cs = Some (pick_by_prefix_order cs)"
          by (simp add: pick_by_prefix_order_def co pr pi)
        then show ?thesis by (intro disjI1 exI)
      next
        case None
        then show ?thesis by (simp add: pick_by_prefix_order_def co pr pi)
      qed
    qed
  qed
qed

lemma pick_by_prefix_order_member:
  "pick_by_prefix_order cs \<in> set cs \<or> (cs = [] \<and> pick_by_prefix_order cs = ''MISSING'')"
proof -
  consider (found) p where "first_with_prefix p cs = Some (pick_by_prefix_order cs)"
    | (first) "pick_by_prefix_order cs = (case cs of c # _ \<Rightarrow> c | [] \<Rightarrow> ''MISSING'')"
    using pick_by_prefix_order_cases [of cs] by (elim disjE exE)
  then show ?thesis
  proof cases
    case found
    then show ?thesis using first_with_prefix_Some by simp
  next
    case first
    then show ?thesis by (cases cs) simp_all
  qed
qed

lemma priority_cascade_member:
  "priority_cascade codes \<in> set codes \<or> priority_cascade codes = ''MISSING'' \<or>
   priority_cascade codes = ''CO109'' \<or> priority_cascade codes = ''CO96''"
proof -
  let ?kept = "filter (\<lambda>c. c \<notin> {''CO45'', ''OA94'', ''PR94'', ''CO94''}) codes"
  have kept: "?kept \<noteq> [] \<Longrightarrow> pick_by_prefix_order ?kept \<in> set codes"
    using pick_by_prefix_order_member [of ?kept] by auto
  have all: "pick_by_prefix_order codes \<in> set codes \<or> pick_by_prefix_order codes = ''MISSING''"
    using pick_by_prefix_order_member [of codes] by auto
  show ?thesis
  proof (cases "?kept = []")
    case True
    then have "priority_cascade codes = ''CO109'' \<or> priority_cascade codes = ''CO96'' \<or>
        priority_cascade codes = pick_by_prefix_order codes"
      unfolding priority_cascade_def Let_def by (simp only: if_True split: if_splits) simp
    with all show ?thesis by metis
  next
    case False
    then have "priority_cascade codes = ''CO109'' \<or> priority_cascade codes = ''CO96'' \<or>
        priority_cascade codes = pick_by_prefix_order ?kept"
      unfolding priority_cascade_def Let_def by (simp only: if_False split: if_splits) simp
    with kept [OF False] show ?thesis by metis
  qed
qed

lemma parsed_codes_not_Nil: "c \<in> set (parsed_codes rc) \<Longrightarrow> c \<noteq> []"
  by (auto simp: parsed_codes_def)

lemma cleaned_codes_not_Nil: "c \<in> set (cleaned_codes rc) \<Longrightarrow> c \<noteq> []"
  using parsed_codes_not_Nil by (auto simp: cleaned_codes_def)

subsection \<open>The code list as the claim words it\<close>

lemma split_where_not_Nil: "split_where sep s \<noteq> []"
  by (induction s) (auto split: list.splits)

lemma replace_char_Cons:
  "replace_char a r (c # cs) = (if c = a then r else [c]) @ replace_char a r cs"
  by (simp add: replace_char_def)

lemma replace_char_Nil: "replace_char a r [] = []"
  by (simp add: replace_char_def)

lemma split_codes_text:
  "split_on (CHR '','') (replace_char (CHR '' '') [] (replace_char (CHR '';'') '','' s)) =
   code_entries s"
proof (induction s)
  case Nil
  show ?case by (simp add: replace_char_Nil code_entries_def)
next
  case (Cons c cs)
  let ?rest = "replace_char (CHR '' '') [] (replace_char (CHR '';'') '','' cs)"
  let ?sep = "\<lambda>c. c = CHR '','' \<or> c = CHR '';''"
  obtain w ws where w: "split_where ?sep cs = w # ws"
    using split_where_not_Nil [of ?sep cs] by (cases "split_where ?sep cs") auto
  from Cons w have ih: "split_on (CHR '','') ?rest =
      filter (\<lambda>c. c \<noteq> CHR '' '') w # map (filter (\<lambda>c. c \<noteq> CHR '' '')) ws"
    by (simp add: code_entries_def)
  consider (semi) "c = CHR '';''" | (comma) "c = CHR '',''" | (space) "c = CHR '' ''"
    | (other) "c \<noteq> CHR '';''" "c \<noteq> CHR '',''" "c \<noteq> CHR '' ''"
    by blast
  then show ?case
  proof cases
    case semi
    then show ?thesis
      by (simp add: replace_char_Cons replace_char_Nil code_entries_def w ih)
  next
    case comma
    then show ?thesis
      by (simp add: replace_char_Cons replace_char_Nil code_entries_def w ih)
  next
    case space
    then show ?thesis
      by (simp add: replace_char_Cons replace_char_Nil code_entries_def w ih)
  next
    case other
    then show ?thesis
      by (simp add: replace_char_Cons replace_char_Nil code_entries_def w ih)
  qed
qed

lemma split_codes_entries: "split_codes rc = code_entries (py_str rc)"
  by (simp only: split_codes_def split_codes_text)

lemma cleaned_codes_parsed_code_list: "cleaned_codes rc = parsed_code_list (py_str rc)"
proof -
  have "set exclude_trivial = {''PR1'', ''PR2'', ''PR3'', ''PR100'', ''CO253''}"
    by (simp add: exclude_trivial_def)
  then show ?thesis
    by (simp add: cleaned_codes_def parsed_codes_def parsed_code_list_def split_codes_entries
                  filter_map comp_def)
qed

lemma split_where_chars: "e \<in> set (split_where sep s) \<Longrightarrow> set e \<subseteq> set s"
proof (induction s arbitrary: e)
  case Nil
  then show ?case by simp
next
  case (Cons c cs)
  obtain w ws where w: "split_where sep cs = w # ws"
    using split_where_not_Nil [of sep cs] by (cases "split_where sep cs") auto
  have sub: "set x \<subseteq> set cs" if "x \<in> set (w # ws)" for x
    using Cons.IH [of x] that by (simp only: w)
  have ww: "set w \<subseteq> set cs" by (rule sub) simp
  show ?case
  proof (cases "sep c")
    case True
    with Cons.prems w have "e = [] \<or> e \<in> set (w # ws)" by simp
    with sub [of e] show ?thesis by auto
  next
    case False
    with Cons.prems w have "e = c # w \<or> e \<in> set ws" by simp
    with sub [of e] ww show ?thesis by auto
  qed
qed

lemma strip_no_space:
  assumes "\<forall>c \<in> set e. \<not> is_space c"
  shows "strip e = e"
proof (cases e)
  case Nil
  then show ?thesis by (simp add: strip_Nil)
next
  case (Cons a as)
  then have "hd e \<in> set e" "last e \<in> set e" by simp_all
  with assms show ?thesis by (intro strip_fixed) blast+
qed

lemma code_entries_no_space:
  assumes "\<forall>c \<in> set text. is_space c \<longrightarrow> c = CHR '' ''" and "e \<in> set (code_entries text)"
  shows "\<forall>c \<in> set e. \<not> is_space c"
proof -
  from assms(2) obtain w where w: "w \<in> set (split_where (\<lambda>c. c = CHR '','' \<or> c = CHR '';'') text)"
    and e: "e = filter (\<lambda>c. c \<noteq> CHR '' '') w"
    unfolding code_entries_def by auto
  from split_where_chars [OF w] have "set w \<subseteq> set text" .
  with assms(1) e show ?thesis by auto
qed

lemma parsed_code_list_claimed:
  assumes "\<forall>c \<in> set text. is_space c \<longrightarrow> c = CHR '' ''"
  shows "parsed_code_list text = claimed_code_list text"
proof -
  have "map strip (code_entries text) = code_entries text"
    by (rule map_idI) (rule strip_no_space, rule code_entries_no_space [OF assms])
  then show ?thesis by (simp only: parsed_code_list_def claimed_code_list_def)
qed

subsection \<open>Rows never raise\<close>

lemma clean_reason_code_never_raises: "\<exists>c d. clean_reason_code r = Inr (c, d)"
proof -
  obtain d0 ds where d: "split_descs (reason_code_descriptions r) = d0 # ds"
    using split_descs_Cons [of "reason_code_descriptions r"] by (elim exE)
  show ?thesis by (simp add: clean_reason_code_eq [OF d])
qed

lemma clean_row_total: "\<exists>t. clean_row r = Inr t \<and> visit t = visit_no r"
proof -
  obtain c d where "clean_reason_code r = Inr (c, d)"
    using clean_reason_code_never_raises [of r] by (elim exE)
  then show ?thesis by (simp add: clean_row_def bind_err_def)
qed

lemma map_err_clean_row: "\<exists>t. map_err clean_row df = Inr t \<and> map visit t = map visit_no df"
proof (induction df)
  case Nil
  then show ?case by simp
next
  case (Cons r df)
  then obtain t where t: "map_err clean_row df = Inr t" "map visit t = map visit_no df"
    by (elim exE conjE)
  obtain x where x: "clean_row r = Inr x" "visit x = visit_no r"
    using clean_row_total [of r] by (elim exE conjE)
  from t x have "map_err clean_row (r # df) = Inr (x # t)"
    by (simp add: bind_err_def)
  with t x show ?case by simp
qed

subsection \<open>Grouping and counting\<close>

lemma set_somes: "set (concat (map (\<lambda>v. case v of None \<Rightarrow> [] | Some x \<Rightarrow> [x]) vs)) = {x. Some x \<in> set vs}"
  by (induction vs) (auto split: option.splits)

lemma nunique_card: "nunique vs = card {x. Some x \<in> set vs}"
  unfolding nunique_def length_remdups_card_conv set_somes ..

lemma group_count_card:
  "nunique (map snd (filter (\<lambda>kv. fst kv = k) kvs)) = card {v. (k, Some v) \<in> set kvs}"
proof -
  have "{x. Some x \<in> set (map snd (filter (\<lambda>kv. fst kv = k) kvs))} = {v. (k, Some v) \<in> set kvs}"
    by force
  then show ?thesis by (simp add: nunique_card)
qed

lemma finite_group: "finite {v. (k, Some v) \<in> set kvs}"
proof -
  have "{v. (k, Some v) \<in> set kvs} \<subseteq> (\<lambda>kv. the (snd kv)) ` set kvs"
    by force
  then show ?thesis by (rule finite_subset) simp
qed

lemma final_summary_Nil: "final_summary [] = Inl ValueError"
  by (simp add: final_summary_def cleaned_table_def bind_err_def)

lemma cleaned_table_rows:
  "df \<noteq> [] \<Longrightarrow> \<exists>t. cleaned_table df = Inr t \<and> map visit t = map visit_no df"
  using map_err_clean_row [of df] by (simp add: cleaned_table_def)

lemma final_summary_of_cleaned:
  "cleaned_table df = Inr t \<Longrightarrow> final_summary df = Inr (sort_desc (group_counts (keyed_rows t)))"
  by (simp add: final_summary_def bind_err_def)

lemma group_counts_eq:
  "group_counts kvs =
     map (\<lambda>k. (k, card {v. (k, Some v) \<in> set kvs})) (sort (remdups (map fst kvs)))"
  by (simp add: group_counts_def group_count_card)

lemma sum_group_counts:
  "sum_list (map snd (group_counts kvs)) = (\<Sum>k \<in> fst ` set kvs. card {v. (k, Some v) \<in> set kvs})"
proof -
  have "sum_list (map snd (group_counts kvs)) =
        sum_list (map (\<lambda>k. card {v. (k, Some v) \<in> set kvs}) (sort (remdups (map fst kvs))))"
    by (simp add: group_counts_eq comp_def)
  also have "\<dots> = (\<Sum>k \<in> set (sort (remdups (map fst kvs))). card {v. (k, Some v) \<in> set kvs})"
    by (rule sum_list_distinct_conv_sum_set) simp
  finally show ?thesis by simp
qed

lemma length_group_counts: "length (group_counts kvs) = card (fst ` set kvs)"
proof -
  have "length (group_counts kvs) = length (remdups (map fst kvs))"
    by (simp add: group_counts_def)
  then show ?thesis by (simp add: length_remdups_card_conv)
qed

lemma mset_sort_desc: "mset (sort_desc s) = mset s"
  by (simp add: sort_desc_def)

lemma set_sort_desc: "set (sort_desc s) = set s"
  by (simp add: sort_desc_def)

lemma length_sort_desc: "length (sort_desc s) = length s"
  by (simp add: sort_desc_def)

lemma sorted_sort_desc: "sorted (rev (map snd (sort_desc s)))"
  by (simp add: sort_desc_def rev_map)

lemma descending_is_rev_sort:
  fixes ns :: "nat list"
  assumes "sorted (rev ns)"
  shows "rev (sort ns) = ns"
proof -
  have "mset (rev ns) = mset ns" by simp
  then have "sort ns = rev ns" using assms by (rule properties_for_sort)
  then show ?thesis by simp
qed

lemma counts_sort_desc: "map snd (sort_desc s) = rev (sort (map snd s))"
proof -
  have "mset (map snd (sort_desc s)) = mset (map snd s)"
    by (simp add: mset_sort_desc)
  then have "sort (map snd (sort_desc s)) = sort (map snd s)"
    by (metis properties_for_sort sorted_sort mset_sort)
  with descending_is_rev_sort [OF sorted_sort_desc, of s] show ?thesis by simp
qed

lemma counts_of_any_descending_order:
  assumes "mset s' = mset s" and "sorted (rev (map snd s'))"
  shows "map snd s' = map snd (sort_desc s)"
proof -
  from assms(1) have "mset (map snd s') = mset (map snd s)" by (metis mset_map)
  then have "sort (map snd s') = sort (map snd s)"
    by (metis properties_for_sort sorted_sort mset_sort)
  with descending_is_rev_sort [OF assms(2)] show ?thesis by (simp add: counts_sort_desc)
qed

lemma counts_outside_top10_descending:
  assumes "sorted (rev ns)"
  shows "counts_outside_top10 ns = sum_list (drop 10 ns)"
proof -
  have "sum_list ns = sum_list (take 10 ns) + sum_list (drop 10 ns)"
    by (metis append_take_drop_id sum_list_append)
  then show ?thesis
    by (simp add: counts_outside_top10_def descending_is_rev_sort [OF assms])
qed

lemma others_sum_sort_desc:
  "others_sum (sort_desc s) = counts_outside_top10 (map snd (sort_desc s))"
  by (simp add: others_sum_def counts_outside_top10_descending [OF sorted_sort_desc] drop_map)

lemma sum_group_counts_disjoint:
  assumes "one_group_per_visit kvs"
  shows "sum_list (map snd (group_counts kvs)) = card {v. Some v \<in> snd ` set kvs}"
proof -
  let ?A = "\<lambda>k. {v. (k, Some v) \<in> set kvs}"
  have disj: "?A i \<inter> ?A j = {}" if "i \<noteq> j" for i j
  proof (rule ccontr)
    assume "?A i \<inter> ?A j \<noteq> {}"
    then obtain v where v: "(i, Some v) \<in> set kvs" "(j, Some v) \<in> set kvs"
      by auto
    from assms v have "fst (i, Some v) = fst (j, Some v)"
      unfolding one_group_per_visit_def by (metis option.distinct(1) snd_conv)
    with that show False by simp
  qed
  have "card (\<Union> (?A ` (fst ` set kvs))) = (\<Sum>k \<in> fst ` set kvs. card (?A k))"
  proof (rule card_UN_disjoint)
    show "finite (fst ` set kvs)" by simp
    show "\<forall>k \<in> fst ` set kvs. finite (?A k)" by (simp add: finite_group)
    show "\<forall>i \<in> fst ` set kvs. \<forall>j \<in> fst ` set kvs. i \<noteq> j \<longrightarrow> ?A i \<inter> ?A j = {}"
      using disj by (intro ballI impI)
  qed
  moreover have "\<Union> (?A ` (fst ` set kvs)) = {v. Some v \<in> snd ` set kvs}"
  proof (intro set_eqI iffI)
    fix v assume "v \<in> \<Union> (?A ` (fst ` set kvs))"
    then obtain k where "(k, Some v) \<in> set kvs" by auto
    then have "snd (k, Some v) \<in> snd ` set kvs" by (rule imageI)
    then show "v \<in> {v. Some v \<in> snd ` set kvs}" by simp
  next
    fix v assume "v \<in> {v. Some v \<in> snd ` set kvs}"
    then obtain kv where kv: "kv \<in> set kvs" "snd kv = Some v" by auto
    then have "(fst kv, Some v) \<in> set kvs" by (metis prod.collapse)
    moreover from kv(1) have "fst kv \<in> fst ` set kvs" by (rule imageI)
    ultimately show "v \<in> \<Union> (?A ` (fst ` set kvs))" by blast
  qed
  ultimately show ?thesis by (simp only: sum_group_counts)
qed

lemma sum_list_mset_cong:
  fixes f :: "'a \<Rightarrow> nat"
  shows "mset xs = mset ys \<Longrightarrow> sum_list (map f xs) = sum_list (map f ys)"
proof -
  assume "mset xs = mset ys"
  then have "mset (map f xs) = mset (map f ys)" by simp
  then have "sum_mset (mset (map f xs)) = sum_mset (mset (map f ys))" by (simp only:)
  then show ?thesis by (simp only: sum_mset_sum_list)
qed

lemma sum_sort_desc: "sum_list (map snd (sort_desc s)) = sum_list (map snd s)"
  by (rule sum_list_mset_cong) (rule mset_sort_desc)

lemma keyed_rows_visits: "snd ` set (keyed_rows t) = set (map visit t)"
  by (force simp: keyed_rows_def)

lemma group_counts_member:
  assumes "x \<in> set (group_counts kvs)"
  shows "fst x \<in> fst ` set kvs \<and> snd x = card {v. (fst x, Some v) \<in> set kvs}"
proof -
  from assms obtain k where k: "k \<in> set (map fst kvs)"
    and x: "x = (k, card {v. (k, Some v) \<in> set kvs})"
    unfolding group_counts_eq by auto
  from k have "k \<in> fst ` set kvs" by simp
  with x show ?thesis by simp
qed

lemma group_counts_pos:
  assumes "\<forall>kv \<in> set kvs. snd kv \<noteq> None" and "x \<in> set (group_counts kvs)"
  shows "0 < snd x"
proof -
  from group_counts_member [OF assms(2)]
  have k: "fst x \<in> fst ` set kvs" and c: "snd x = card {v. (fst x, Some v) \<in> set kvs}"
    by simp_all
  from k obtain kv where kv: "kv \<in> set kvs" "fst kv = fst x" by auto
  with assms(1) obtain v where "snd kv = Some v" by auto
  with kv have "(fst x, Some v) \<in> set kvs" by (metis prod.collapse)
  then have "{v. (fst x, Some v) \<in> set kvs} \<noteq> {}" by auto
  with finite_group [of "fst x" kvs] have "0 < card {v. (fst x, Some v) \<in> set kvs}"
    by (simp add: card_gt_0_iff)
  with c show ?thesis by simp
qed

lemma group_counts_distinct: "distinct (map fst (group_counts kvs))"
  by (simp add: group_counts_eq comp_def)

subsection \<open>The pie chart\<close>

lemma normalize_prefix_not_Others: "normalize_prefix c \<noteq> ''Others''"
proof
  assume "normalize_prefix c = ''Others''"
  with normalize_prefix_fixed [of c] have "upper (strip ''Others'') = ''Others''" by simp
  moreover have "upper (strip ''Others'') = ''OTHERS''" by code_simp
  ultimately show False by simp
qed

lemma keyed_rows_label: "k \<in> fst ` set (keyed_rows t) \<Longrightarrow> fst k \<noteq> ''Others''"
  by (auto simp: keyed_rows_def group_key_of_def normalized_code_def normalize_prefix_not_Others)

lemma top10_labels:
  assumes "\<forall>x \<in> set s. fst (fst x) \<noteq> ''Others''"
  shows "''Others'' \<notin> (\<lambda>x. fst (fst x)) ` set (take 10 s)"
proof
  assume "''Others'' \<in> (\<lambda>x. fst (fst x)) ` set (take 10 s)"
  then obtain x where x: "x \<in> set (take 10 s)" "fst (fst x) = ''Others''" by auto
  from x(1) have "x \<in> set s" by (rule in_set_takeD)
  with assms x(2) show False by simp
qed

lemma has_others_iff:
  assumes "\<forall>x \<in> set s. fst (fst x) \<noteq> ''Others''"
  shows "has_others s \<longleftrightarrow> 0 < others_sum s"
  using top10_labels [OF assms]
  by (auto simp: has_others_def pie_slices_def final_df_def Let_def image_iff)

lemma others_value:
  assumes "\<forall>x \<in> set s. fst (fst x) \<noteq> ''Others''" and "(''Others'', n) \<in> set (pie_slices s)"
  shows "n = others_sum s"
  using top10_labels [OF assms(1)] assms(2)
  by (auto simp: pie_slices_def final_df_def Let_def image_iff split: if_splits)

lemma others_sum_pos_length: "0 < others_sum s \<Longrightarrow> 10 < length s"
proof (rule ccontr)
  assume pos: "0 < others_sum s" and "\<not> 10 < length s"
  then have "drop 10 s = []" by simp
  with pos show False by (simp add: others_sum_def)
qed

lemma others_sum_pos:
  assumes "\<forall>x \<in> set s. 0 < snd x" and "10 < length s"
  shows "0 < others_sum s"
proof -
  from assms(2) obtain x xs where d: "drop 10 s = x # xs"
    by (cases "drop 10 s") auto
  then have "x \<in> set (drop 10 s)" by simp
  then have "x \<in> set s" by (rule in_set_dropD)
  with assms(1) have "0 < snd x" by simp
  with d show ?thesis by (simp add: others_sum_def)
qed

lemma top10_slices:
  "take 10 (pie_slices s) = map (\<lambda>x. (fst (fst x), snd x)) (take 10 s)"
proof (cases "0 < others_sum s")
  case True
  then have "10 < length s" by (rule others_sum_pos_length)
  with True show ?thesis
    by (simp add: pie_slices_def final_df_def Let_def take_map)
next
  case False
  then show ?thesis
    by (simp add: pie_slices_def final_df_def Let_def take_map)
qed

subsection \<open>The example tables, evaluated\<close>

lemma eleven_rows_cleaned:
  "cleaned_table (eleven_rows v) =
     Inr (map (\<lambda>(c, w). \<lparr>cleaned_code = c, cleaned_description = ''d'', visit = w\<rparr>)
       [(''PR10'', Some 1), (''PR11'', Some 2), (''PR12'', Some 3), (''PR13'', Some 4),
        (''PR14'', Some 5), (''PR15'', Some 6), (''PR16'', Some 7), (''PR17'', Some 8),
        (''PR18'', Some 9), (''PR19'', Some 10), (''PR20'', v)])"
  by code_simp

lemma eleven_rows_keyed:
  "keyed_rows (map (\<lambda>(c, w). \<lparr>cleaned_code = c, cleaned_description = ''d'', visit = w\<rparr>)
       [(''PR10'', Some 1), (''PR11'', Some 2), (''PR12'', Some 3), (''PR13'', Some 4),
        (''PR14'', Some 5), (''PR15'', Some 6), (''PR16'', Some 7), (''PR17'', Some 8),
        (''PR18'', Some 9), (''PR19'', Some 10), (''PR20'', v)]) = eleven_keyed v"
  by code_simp

lemma eleven_final_summary:
  "final_summary (eleven_rows v) = Inr (sort_desc (group_counts (eleven_keyed v)))"
  by (simp only: final_summary_of_cleaned [OF eleven_rows_cleaned] eleven_rows_keyed)

lemma eleven_sorted_missing:
  "sort_desc (group_counts (eleven_keyed None)) = eleven_summary_missing"
  by code_simp

lemma eleven_sorted_present:
  "sort_desc (group_counts (eleven_keyed (Some 11))) = eleven_summary_present"
  by code_simp

lemma three_rows_cleaned: "cleaned_table three_rows = Inr three_cleaned"
  by code_simp

lemma three_rows_summary:
  "final_summary three_rows = Inr [((''CO45'', ''d''), 1), ((''CO96'', ''d''), 1)]"
  by code_simp

lemma normalize_prefix_PIB: "normalize_prefix ''PIB123'' = ''COB123''"
  by code_simp

lemma normalize_prefix_trailing_text: "normalize_prefix ''PR12X'' = ''CO12X''"
  by code_simp

lemma description_by_position_example:
  "strip (desc_at (split_codes (Text ''OA23,PR27'')) [''a'', '' b''] ''a'' ''PR27'') = ''b''"
  by code_simp

lemma description_after_dropped_entry:
  "clean_reason_code (example_row ''PR1,CO45'' ''a,b'') = Inr (''CO45'', ''a'')"
  by code_simp

section \<open>The claims of the specification\<close>

subsection \<open>Claim C1\<close>

text \<open>
  Claim C1 takes the parsed code list to be the text split at commas and semicolons
  with the spaces removed. A code cell \<open>CO45\<close> that ends with a line break gives, in
  those words, the one code \<open>CO45\<close> with the line break, which the cascade returns.
  The code selects \<open>CO45\<close>: line 23 strips every entry.
\<close>

theorem trailing_newline_is_stripped:
  "priority_cascade (claimed_code_list (py_str (reason_codes newline_row))) =
     ''CO45'' @ [CHR 0x0A] \<and>
   clean_reason_code newline_row = Inr (''CO45'', ''a'') \<and>
   ''CO45'' \<noteq> ''CO45'' @ [CHR 0x0A]"
  by code_simp

text \<open>
  Claim C1, amended. For every row, \<open>clean_reason_code\<close> returns, and the code it
  selects is the result of the priority cascade (\<open>priority_cascade\<close>) on the row's
  parsed code list: the text of the code cell split at commas and semicolons, spaces
  removed and other white space at the ends of an entry stripped, empty and \<open>NAN\<close>
  entries dropped, trivial codes excluded (\<open>parsed_code_list\<close>). When the cell holds no
  white space other than spaces, this is the list of the claim (\<open>claimed_code_list\<close>).
\<close>

theorem clean_reason_code_follows_cascade:
  "(\<exists>d. clean_reason_code r =
         Inr (priority_cascade (parsed_code_list (py_str (reason_codes r))), d)) \<and>
   ((\<forall>c \<in> set (py_str (reason_codes r)). is_space c \<longrightarrow> c = CHR '' '') \<longrightarrow>
      parsed_code_list (py_str (reason_codes r)) = claimed_code_list (py_str (reason_codes r)))"
proof (intro conjI impI)
  obtain d0 ds where d: "split_descs (reason_code_descriptions r) = d0 # ds"
    using split_descs_Cons [of "reason_code_descriptions r"] by (elim exE)
  have "\<exists>d. clean_reason_code r = Inr (priority_cascade (cleaned_codes (reason_codes r)), d)"
  proof (cases "parsed_codes (reason_codes r) = []")
    case True
    then show ?thesis
      by (simp add: clean_reason_code_eq [OF d] cleaned_codes_Nil priority_cascade_Nil)
  next
    case False
    then show ?thesis
      by (simp add: clean_reason_code_eq [OF d])
  qed
  then show "\<exists>d. clean_reason_code r =
         Inr (priority_cascade (parsed_code_list (py_str (reason_codes r))), d)"
    by (simp only: cleaned_codes_parsed_code_list)
next
  assume "\<forall>c \<in> set (py_str (reason_codes r)). is_space c \<longrightarrow> c = CHR '' ''"
  then show "parsed_code_list (py_str (reason_codes r)) =
      claimed_code_list (py_str (reason_codes r))"
    by (rule parsed_code_list_claimed)
qed

text \<open>
  The amended C1 at a row with a trivial code, semicolons, spaces and a \<open>nan\<close> entry,
  at the two examples of the specification (\<open>CO109,PR45\<close> selects \<open>CO109\<close>,
  \<open>CO96,OA97\<close> selects \<open>CO96\<close>), and at the row with the line break.
\<close>

theorem clean_reason_code_follows_cascade_witness:
  "list_all (\<lambda>c. is_space c \<longrightarrow> c = CHR '' '') ''PR1; PR27 ;CO16,nan'' \<and>
   claimed_code_list ''PR1; PR27 ;CO16,nan'' = [''PR27'', ''CO16''] \<and>
   (\<exists>d. clean_reason_code (example_row ''PR1; PR27 ;CO16,nan'' ''a,b'') = Inr (''CO16'', d)) \<and>
   (\<exists>d. clean_reason_code (example_row ''CO109,PR45'' ''a,b'') = Inr (''CO109'', d)) \<and>
   (\<exists>d. clean_reason_code (example_row ''CO96,OA97'' ''a,b'') = Inr (''CO96'', d)) \<and>
   (\<exists>d. clean_reason_code newline_row = Inr (''CO45'', d))"
proof -
  have h: "list_all (\<lambda>c. is_space c \<longrightarrow> c = CHR '' '') ''PR1; PR27 ;CO16,nan''"
    by code_simp
  then have h': "\<forall>c \<in> set (py_str (reason_codes (example_row ''PR1; PR27 ;CO16,nan'' ''a,b''))).
      is_space c \<longrightarrow> c = CHR '' ''"
    by (simp add: example_row_def list_all_iff)
  have l: "claimed_code_list ''PR1; PR27 ;CO16,nan'' = [''PR27'', ''CO16'']" by code_simp
  have t: "py_str (reason_codes (example_row ''PR1; PR27 ;CO16,nan'' ''a,b'')) =
      ''PR1; PR27 ;CO16,nan''"
    by (simp add: example_row_def)
  have p: "priority_cascade [''PR27'', ''CO16''] = ''CO16''" by code_simp
  have a: "priority_cascade (parsed_code_list (py_str (reason_codes
      (example_row ''CO109,PR45'' ''a,b'')))) = ''CO109''" by code_simp
  have b: "priority_cascade (parsed_code_list (py_str (reason_codes
      (example_row ''CO96,OA97'' ''a,b'')))) = ''CO96''" by code_simp
  have n: "priority_cascade (parsed_code_list (py_str (reason_codes newline_row))) = ''CO45''"
    by code_simp
  note c = clean_reason_code_follows_cascade [of "example_row ''PR1; PR27 ;CO16,nan'' ''a,b''"]
  from c [THEN conjunct2] h'
  have e: "parsed_code_list (py_str (reason_codes (example_row ''PR1; PR27 ;CO16,nan'' ''a,b'')))
      = claimed_code_list (py_str (reason_codes (example_row ''PR1; PR27 ;CO16,nan'' ''a,b'')))"
    by (rule mp)
  then have e': "parsed_code_list ''PR1; PR27 ;CO16,nan'' = [''PR27'', ''CO16'']"
    by (simp only: t l)
  from c [THEN conjunct1]
  have "\<exists>d. clean_reason_code (example_row ''PR1; PR27 ;CO16,nan'' ''a,b'') = Inr (''CO16'', d)"
    by (simp only: t e' p)
  moreover from clean_reason_code_follows_cascade [of "example_row ''CO109,PR45'' ''a,b''"]
  have "\<exists>d. clean_reason_code (example_row ''CO109,PR45'' ''a,b'') = Inr (''CO109'', d)"
    by (simp only: a)
  moreover from clean_reason_code_follows_cascade [of "example_row ''CO96,OA97'' ''a,b''"]
  have "\<exists>d. clean_reason_code (example_row ''CO96,OA97'' ''a,b'') = Inr (''CO96'', d)"
    by (simp only: b)
  moreover from clean_reason_code_follows_cascade [of newline_row]
  have "\<exists>d. clean_reason_code newline_row = Inr (''CO45'', d)"
    by (simp only: n)
  ultimately show ?thesis using h l by (intro conjI)
qed

subsection \<open>Claim C2\<close>

text \<open>
  Claim C2 says that a row whose cleaned code list is \<open>PR94, CO45\<close> selects \<open>PR94\<close>.
  The code selects \<open>CO45\<close>: both codes are secondary exclusions, the selection falls back
  to the whole list, and there the prefix \<open>CO\<close> is looked for before \<open>PR\<close>.
\<close>

theorem pr94_co45_selects_co45:
  "cleaned_codes (Text ''PR94,CO45'') = [''PR94'', ''CO45''] \<and>
   clean_reason_code (example_row ''PR94,CO45'' ''a,b'') = Inr (''CO45'', ''b'') \<and>
   ''CO45'' \<noteq> ''PR94''"
  by code_simp

text \<open>
  Claim C2, amended. For a row whose cleaned code list is exactly \<open>PR94, CO45\<close>, the
  secondary exclusions remove both codes, the selection falls back to the whole list, and
  the selected code is \<open>CO45\<close>, the first code with the prefix \<open>CO\<close>.
\<close>

theorem pr94_co45_falls_back_to_first_CO:
  "cleaned_codes (reason_codes r) = [''PR94'', ''CO45''] \<longrightarrow>
     filter (\<lambda>c. c \<notin> set exclude_secondary) (cleaned_codes (reason_codes r)) = [] \<and>
     (\<exists>d. clean_reason_code r = Inr (''CO45'', d))"
proof
  assume c: "cleaned_codes (reason_codes r) = [''PR94'', ''CO45'']"
  obtain d0 ds where d: "split_descs (reason_code_descriptions r) = d0 # ds"
    using split_descs_Cons [of "reason_code_descriptions r"] by (elim exE)
  from c have p: "parsed_codes (reason_codes r) \<noteq> []"
    using cleaned_codes_Nil [of "reason_codes r"] by auto
  have s: "select_code [''PR94'', ''CO45''] = Inr ''CO45''" by code_simp
  have "\<exists>d. clean_reason_code r = Inr (''CO45'', d)"
    unfolding clean_reason_code_def Let_def c d s extract_desc_eq using p
    by (simp add: bind_err_def)
  moreover have "filter (\<lambda>c. c \<notin> set exclude_secondary) [''PR94'', ''CO45''] = []"
    by (simp add: exclude_secondary_def)
  ultimately show "filter (\<lambda>c. c \<notin> set exclude_secondary) (cleaned_codes (reason_codes r)) = [] \<and>
     (\<exists>d. clean_reason_code r = Inr (''CO45'', d))"
    by (simp only: c)
qed

text \<open>
  The amended C2 at the row with the codes \<open>PR94,CO45\<close>.
\<close>

theorem pr94_co45_falls_back_to_first_CO_witness:
  "cleaned_codes (reason_codes (example_row ''PR94,CO45'' ''a,b'')) = [''PR94'', ''CO45''] \<and>
   filter (\<lambda>c. c \<notin> set exclude_secondary)
     (cleaned_codes (reason_codes (example_row ''PR94,CO45'' ''a,b''))) = [] \<and>
   (\<exists>d. clean_reason_code (example_row ''PR94,CO45'' ''a,b'') = Inr (''CO45'', d))"
proof -
  have h: "cleaned_codes (reason_codes (example_row ''PR94,CO45'' ''a,b'')) = [''PR94'', ''CO45'']"
    by code_simp
  from pr94_co45_falls_back_to_first_CO [of "example_row ''PR94,CO45'' ''a,b''"] h show ?thesis by (simp only:) 
qed

subsection \<open>Claim C3\<close>

text \<open>
  Claim C3 says that a code that is not \<open>PR\<close>, \<open>PI\<close>, \<open>PIB\<close> or \<open>OA\<close> followed by
  digits is returned unchanged. The code \<open>co45\<close> is returned as \<open>CO45\<close>: the function
  strips and upper-cases every code first.
\<close>

theorem normalize_prefix_changes_other_codes:
  "normalize_prefix ''co45'' = ''CO45'' \<and> normalize_prefix ''co45'' \<noteq> ''co45''"
  by code_simp

text \<open>
  Claim C3, amended. Let \<open>c\<close> be the code, stripped and upper-cased. When \<open>c\<close> is
  \<open>PR\<close>, \<open>PI\<close> or \<open>OA\<close> followed by a digit \<open>d\<close> and a rest, \<open>normalize_prefix\<close> returns
  \<open>CO\<close> followed by \<open>d\<close> and the same rest. When \<open>c\<close> does not start with \<open>PR\<close>, \<open>PI\<close>,
  \<open>PIB\<close> or \<open>OA\<close> followed by a digit, \<open>normalize_prefix\<close> returns \<open>c\<close>. Nothing is said
  here about \<open>PIB\<close> followed by a digit (lemma \<open>normalize_prefix_PIB\<close> evaluates one
  such code).
\<close>

theorem normalize_prefix_rewrites_prefix:
  "(p \<in> {''PR'', ''PI'', ''OA''} \<and> is_digit d \<and> upper (strip code) = p @ d # rest \<longrightarrow>
      normalize_prefix code = ''CO'' @ d # rest) \<and>
   ((\<forall>p \<in> {''PR'', ''PI'', ''PIB'', ''OA''}. \<forall>d rest.
        upper (strip code) = p @ d # rest \<longrightarrow> \<not> is_digit d) \<longrightarrow>
      normalize_prefix code = upper (strip code))"
proof (intro conjI impI)
  assume a: "p \<in> {''PR'', ''PI'', ''OA''} \<and> is_digit d \<and> upper (strip code) = p @ d # rest"
  then have "p \<in> set prefix_alternatives" by (auto simp: prefix_alternatives_def)
  with a have m: "re_match_prefix_digits (upper (strip code))"
    unfolding re_match_iff by blast
  from a have "drop 2 (upper (strip code)) = d # rest" by auto
  with re_sub_of_match [OF m] m show "normalize_prefix code = ''CO'' @ d # rest"
    by (simp add: normalize_prefix_def)
next
  assume h: "\<forall>p \<in> {''PR'', ''PI'', ''PIB'', ''OA''}. \<forall>d rest.
        upper (strip code) = p @ d # rest \<longrightarrow> \<not> is_digit d"
  have "\<not> re_match_prefix_digits (upper (strip code))"
  proof
    assume "re_match_prefix_digits (upper (strip code))"
    then obtain q e more where q: "q \<in> set prefix_alternatives"
      and c: "upper (strip code) = q @ e # more" and e: "is_digit e"
      unfolding re_match_iff by (elim bexE exE conjE)
    from q have "q \<in> {''PR'', ''PI'', ''PIB'', ''OA''}"
      by (simp add: prefix_alternatives_def)
    with h have "\<forall>d rest. upper (strip code) = q @ d # rest \<longrightarrow> \<not> is_digit d"
      by (rule bspec)
    with c have "\<not> is_digit e" by (elim allE impE)
    with e show False by simp
  qed
  then show "normalize_prefix code = upper (strip code)"
    by (simp add: normalize_prefix_def)
qed

text \<open>
  The amended C3 at \<open>OA97\<close>, the example of the specification, and at \<open>co45\<close>.
\<close>

theorem normalize_prefix_rewrites_prefix_witness:
  "normalize_prefix ''OA97'' = ''CO97'' \<and> normalize_prefix ''co45'' = ''CO45''"
proof -
  have u1: "upper (strip ''OA97'') = ''OA'' @ CHR ''9'' # ''7''" by code_simp
  have d1: "is_digit (CHR ''9'')" by code_simp
  have u2: "upper (strip ''co45'') = ''CO45''" by code_simp
  have h2: "\<forall>p \<in> {''PR'', ''PI'', ''PIB'', ''OA''}. \<forall>d rest.
      upper (strip ''co45'') = p @ d # rest \<longrightarrow> \<not> is_digit d"
    unfolding u2 by simp
  from normalize_prefix_rewrites_prefix [of "''OA''" "CHR ''9''" "''OA97''" "''7''"] u1 d1
  have "normalize_prefix ''OA97'' = ''CO97''" by simp
  moreover from normalize_prefix_rewrites_prefix [of "''OA''" "CHR ''9''" "''co45''" "''7''"] h2 u2
  have "normalize_prefix ''co45'' = ''CO45''" by simp
  ultimately show ?thesis by simp
qed

subsection \<open>Claim C4\<close>

text \<open>
  Claim C4 says that a code that carries the prefix \<open>CO\<close> is returned unchanged. The
  code \<open>CO45a\<close> carries the prefix and is returned as \<open>CO45A\<close>.
\<close>

theorem normalize_prefix_changes_CO_code:
  "startswith ''CO45a'' ''CO'' \<and> normalize_prefix ''CO45a'' = ''CO45A'' \<and>
   normalize_prefix ''CO45a'' \<noteq> ''CO45a''"
  by code_simp

text \<open>
  Claim C4, amended. A code that carries the prefix \<open>CO\<close> is returned stripped and
  upper-cased, so it is returned unchanged when it is already stripped and upper-case;
  and applying \<open>normalize_prefix\<close> twice to any string gives the same result as applying
  it once.
\<close>

theorem normalize_prefix_idempotent:
  "(startswith code ''CO'' \<longrightarrow> normalize_prefix code = upper (strip code)) \<and>
   (startswith code ''CO'' \<and> upper (strip code) = code \<longrightarrow> normalize_prefix code = code) \<and>
   normalize_prefix (normalize_prefix code) = normalize_prefix code"
  using normalize_prefix_CO [of code] normalize_prefix_idem [of code] by auto

text \<open>
  The amended C4 at \<open>CO45\<close> and, for the second application, at \<open>PR27\<close>.
\<close>

theorem normalize_prefix_idempotent_witness:
  "startswith ''CO45'' ''CO'' \<and> upper (strip ''CO45'') = ''CO45'' \<and>
   normalize_prefix ''CO45'' = ''CO45'' \<and>
   normalize_prefix (normalize_prefix ''PR27'') = normalize_prefix ''PR27''"
proof -
  have h: "startswith ''CO45'' ''CO''" "upper (strip ''CO45'') = ''CO45''" by code_simp+
  from normalize_prefix_idempotent [of "''CO45''"] normalize_prefix_idempotent [of "''PR27''"] h show ?thesis by simp
qed

subsection \<open>Claim C5\<close>

text \<open>
  Claim C5. For every table that has a row, the run reaches the summary, and when every
  visit identifier occurs in one (normalized code, final description) group only, the
  counts \<open>Distinct Claims\<close> of the summary add up to the number of distinct visit
  identifiers of the merged table. (On a table without rows line 59 raises and there is no
  summary, lemma \<open>final_summary_Nil\<close>.)
\<close>

theorem distinct_claims_sum_eq_distinct_visits:
  "df \<noteq> [] \<longrightarrow>
     (\<exists>t s. cleaned_table df = Inr t \<and> final_summary df = Inr s \<and>
        (one_group_per_visit (keyed_rows t) \<longrightarrow>
           sum_list (map snd s) = distinct_visits df))"
proof
  assume ne: "df \<noteq> []"
  obtain t where t: "cleaned_table df = Inr t" "map visit t = map visit_no df"
    using cleaned_table_rows [OF ne] by (elim exE conjE)
  have fs: "final_summary df = Inr (sort_desc (group_counts (keyed_rows t)))"
    by (rule final_summary_of_cleaned [OF t(1)])
  have "sum_list (map snd (sort_desc (group_counts (keyed_rows t)))) = distinct_visits df"
    if "one_group_per_visit (keyed_rows t)"
  proof -
    have "sum_list (map snd (group_counts (keyed_rows t))) = card {v. Some v \<in> set (map visit t)}"
      using sum_group_counts_disjoint [OF that] by (simp only: keyed_rows_visits)
    then show ?thesis
      by (simp only: sum_sort_desc distinct_visits_def nunique_card t(2))
  qed
  with t(1) fs show "\<exists>t s. cleaned_table df = Inr t \<and> final_summary df = Inr s \<and>
        (one_group_per_visit (keyed_rows t) \<longrightarrow>
           sum_list (map snd s) = distinct_visits df)"
    by (intro exI conjI impI)
qed

text \<open>
  C5 at a table of three rows: two rows of visit 1 in the group of \<open>CO45\<close> and one row
  of visit 2 in the group of \<open>CO96\<close>; the counts add up to 2.
\<close>

theorem distinct_claims_sum_eq_distinct_visits_witness:
  "three_rows \<noteq> [] \<and> cleaned_table three_rows = Inr three_cleaned \<and>
   one_group_per_visit (keyed_rows three_cleaned) \<and>
   final_summary three_rows = Inr [((''CO45'', ''d''), 1), ((''CO96'', ''d''), 1)] \<and>
   distinct_visits three_rows = 2"
proof -
  have n: "three_rows \<noteq> []" by (simp add: three_rows_def)
  have h: "one_group_per_visit (keyed_rows three_cleaned)" by code_simp
  from distinct_claims_sum_eq_distinct_visits [of three_rows] n h
  have "sum_list (map snd [((''CO45'', ''d''), 1::nat), ((''CO96'', ''d''), 1)]) =
      distinct_visits three_rows"
    by (simp add: three_rows_cleaned three_rows_summary)
  then have "distinct_visits three_rows = 2" by simp
  with n h three_rows_cleaned three_rows_summary show ?thesis by (intro conjI)
qed

subsection \<open>Claim C6\<close>

text \<open>
  Claim C6 says that the chart has the slice \<open>Others\<close> whenever the summary has more
  than 10 groups. The table of eleven rows whose last row has no visit identifier gives
  eleven groups, the last with the count 0, and no slice \<open>Others\<close>.
\<close>

theorem eleven_groups_without_others:
  "final_summary (eleven_rows None) = Inr eleven_summary_missing \<and>
   10 < length eleven_summary_missing \<and> \<not> has_others eleven_summary_missing"
proof -
  have "10 < length eleven_summary_missing" by code_simp
  moreover have "\<not> has_others eleven_summary_missing" by code_simp
  moreover have "final_summary (eleven_rows None) = Inr eleven_summary_missing"
    by (simp only: eleven_final_summary eleven_sorted_missing)
  ultimately show ?thesis by (intro conjI)
qed

text \<open>
  Claim C6, amended. For every table that has a row, the run reaches the summary: one
  row for every distinct pair of normalized code and final description, with the number
  of its distinct visit identifiers, in descending order of that number. The first ten
  slices of the chart are the first ten rows of the summary. The chart has the slice
  \<open>Others\<close> if and only if the counts outside the ten largest add up to more than 0;
  then the summary has more than 10 groups; when no row lacks its visit identifier, the
  slice is there if and only if the summary has more than 10 groups; and the value of the
  slice is the sum of the counts outside the ten largest.
\<close>

theorem others_slice_iff_positive_rest:
  "df \<noteq> [] \<longrightarrow>
     (\<exists>t s. cleaned_table df = Inr t \<and> final_summary df = Inr s \<and>
        sorted (rev (map snd s)) \<and>
        length s = card (fst ` set (keyed_rows t)) \<and>
        (\<forall>x \<in> set s. snd x = card {v. (fst x, Some v) \<in> set (keyed_rows t)}) \<and>
        take 10 (pie_slices s) = map (\<lambda>x. (fst (fst x), snd x)) (take 10 s) \<and>
        (has_others s \<longleftrightarrow> 0 < counts_outside_top10 (map snd s)) \<and>
        (has_others s \<longrightarrow> 10 < length s) \<and>
        ((\<forall>r \<in> set df. visit_no r \<noteq> None) \<longrightarrow> (has_others s \<longleftrightarrow> 10 < length s)) \<and>
        (\<forall>n. (''Others'', n) \<in> set (pie_slices s) \<longrightarrow> n = counts_outside_top10 (map snd s)))"
proof
  assume ne: "df \<noteq> []"
  obtain t where t: "cleaned_table df = Inr t" "map visit t = map visit_no df"
    using cleaned_table_rows [OF ne] by (elim exE conjE)
  let ?kvs = "keyed_rows t"
  let ?s = "sort_desc (group_counts ?kvs)"
  let ?rest = "counts_outside_top10 (map snd ?s)"
  have fs: "final_summary df = Inr ?s"
    by (rule final_summary_of_cleaned [OF t(1)])
  have rest: "others_sum ?s = ?rest" by (rule others_sum_sort_desc)
  have labels: "\<forall>x \<in> set ?s. fst (fst x) \<noteq> ''Others''"
  proof
    fix x assume "x \<in> set ?s"
    then have "x \<in> set (group_counts ?kvs)" by (simp only: set_sort_desc)
    then have "fst x \<in> fst ` set ?kvs" by (rule group_counts_member [THEN conjunct1])
    then show "fst (fst x) \<noteq> ''Others''" by (rule keyed_rows_label)
  qed
  have counts: "\<forall>x \<in> set ?s. snd x = card {v. (fst x, Some v) \<in> set ?kvs}"
  proof
    fix x assume "x \<in> set ?s"
    then have "x \<in> set (group_counts ?kvs)" by (simp only: set_sort_desc)
    then show "snd x = card {v. (fst x, Some v) \<in> set ?kvs}"
      by (rule group_counts_member [THEN conjunct2])
  qed
  have len: "length ?s = card (fst ` set ?kvs)"
    by (simp only: length_sort_desc length_group_counts)
  have iff: "has_others ?s \<longleftrightarrow> 0 < ?rest"
    using has_others_iff [OF labels] by (simp only: rest)
  have more: "has_others ?s \<longrightarrow> 10 < length ?s"
    using has_others_iff [OF labels] others_sum_pos_length [of ?s] by auto
  have val: "\<forall>n. (''Others'', n) \<in> set (pie_slices ?s) \<longrightarrow> n = ?rest"
    using others_value [OF labels] by (simp only: rest) blast
  have full: "has_others ?s \<longleftrightarrow> 10 < length ?s" if "\<forall>r \<in> set df. visit_no r \<noteq> None"
  proof -
    from that have "None \<notin> set (map visit_no df)" by auto
    with t(2) have "None \<notin> set (map visit t)" by simp
    then have "\<forall>kv \<in> set ?kvs. snd kv \<noteq> None"
      using keyed_rows_visits [of t] by (metis imageI)
    then have "\<forall>x \<in> set ?s. 0 < snd x"
      using group_counts_pos [of ?kvs] by (simp only: set_sort_desc) blast
    then have "10 < length ?s \<Longrightarrow> 0 < others_sum ?s"
      by (rule others_sum_pos)
    with has_others_iff [OF labels] more show ?thesis by auto
  qed
  show "\<exists>t s. cleaned_table df = Inr t \<and> final_summary df = Inr s \<and>
        sorted (rev (map snd s)) \<and>
        length s = card (fst ` set (keyed_rows t)) \<and>
        (\<forall>x \<in> set s. snd x = card {v. (fst x, Some v) \<in> set (keyed_rows t)}) \<and>
        take 10 (pie_slices s) = map (\<lambda>x. (fst (fst x), snd x)) (take 10 s) \<and>
        (has_others s \<longleftrightarrow> 0 < counts_outside_top10 (map snd s)) \<and>
        (has_others s \<longrightarrow> 10 < length s) \<and>
        ((\<forall>r \<in> set df. visit_no r \<noteq> None) \<longrightarrow> (has_others s \<longleftrightarrow> 10 < length s)) \<and>
        (\<forall>n. (''Others'', n) \<in> set (pie_slices s) \<longrightarrow> n = counts_outside_top10 (map snd s))"
  proof (intro exI conjI)
    show "cleaned_table df = Inr t" by (rule t(1))
    show "final_summary df = Inr ?s" by (rule fs)
    show "sorted (rev (map snd ?s))" by (rule sorted_sort_desc)
    show "length ?s = card (fst ` set ?kvs)" by (rule len)
    show "\<forall>x \<in> set ?s. snd x = card {v. (fst x, Some v) \<in> set ?kvs}" by (rule counts)
    show "take 10 (pie_slices ?s) = map (\<lambda>x. (fst (fst x), snd x)) (take 10 ?s)"
      by (rule top10_slices)
    show "has_others ?s \<longleftrightarrow> 0 < ?rest" by (rule iff)
    show "has_others ?s \<longrightarrow> 10 < length ?s" by (rule more)
    show "(\<forall>r \<in> set df. visit_no r \<noteq> None) \<longrightarrow> (has_others ?s \<longleftrightarrow> 10 < length ?s)"
      using full by (intro impI)
    show "\<forall>n. (''Others'', n) \<in> set (pie_slices ?s) \<longrightarrow> n = ?rest" by (rule val)
  qed
qed

text \<open>
  The amended C6 at the table of eleven rows with eleven visit identifiers: the slice
  \<open>Others\<close> is there with the value 1.
\<close>

theorem others_slice_iff_positive_rest_witness:
  "eleven_rows (Some 11) \<noteq> [] \<and>
   None \<notin> set (map visit_no (eleven_rows (Some 11))) \<and>
   final_summary (eleven_rows (Some 11)) = Inr eleven_summary_present \<and>
   has_others eleven_summary_present \<and> 10 < length eleven_summary_present \<and>
   counts_outside_top10 (map snd eleven_summary_present) = 1 \<and>
   (''Others'', 1) \<in> set (pie_slices eleven_summary_present)"
proof -
  have e: "eleven_rows (Some 11) \<noteq> []" by (simp add: eleven_rows_def)
  have n: "None \<notin> set (map visit_no (eleven_rows (Some 11)))"
    by (simp add: eleven_rows_def visit_row_def)
  then have h: "\<forall>r \<in> set (eleven_rows (Some 11)). visit_no r \<noteq> None"
    by (metis image_eqI set_map)
  have s: "final_summary (eleven_rows (Some 11)) = Inr eleven_summary_present"
    by (simp only: eleven_final_summary eleven_sorted_present)
  have l: "10 < length eleven_summary_present" by code_simp
  have o: "counts_outside_top10 (map snd eleven_summary_present) = 1" by code_simp
  have p: "(''Others'', 1) \<in> set (pie_slices eleven_summary_present)" by code_simp
  from others_slice_iff_positive_rest [of "eleven_rows (Some 11)"] e s
  have "(\<forall>r \<in> set (eleven_rows (Some 11)). visit_no r \<noteq> None) \<longrightarrow>
      (has_others eleven_summary_present \<longleftrightarrow> 10 < length eleven_summary_present)"
    by auto
  with h l have "has_others eleven_summary_present" by simp
  with e n s l o p show ?thesis by (intro conjI)
qed

subsection \<open>Claim C7\<close>

text \<open>
  Claim C7. For every row, \<open>clean_reason_code\<close> returns, the selected code is not
  empty, and it is one of the row's cleaned codes, \<open>MISSING\<close>, \<open>CO109\<close> or \<open>CO96\<close>.
\<close>

theorem selected_code_nonempty_and_known:
  "\<exists>c d. clean_reason_code r = Inr (c, d) \<and> c \<noteq> [] \<and>
     (c \<in> set (cleaned_codes (reason_codes r)) \<or> c = ''MISSING'' \<or> c = ''CO109'' \<or> c = ''CO96'')"
proof -
  obtain d0 ds where d: "split_descs (reason_code_descriptions r) = d0 # ds"
    using split_descs_Cons [of "reason_code_descriptions r"] by (elim exE)
  let ?codes = "cleaned_codes (reason_codes r)"
  let ?c = "priority_cascade ?codes"
  have mem: "?c \<in> set ?codes \<or> ?c = ''MISSING'' \<or> ?c = ''CO109'' \<or> ?c = ''CO96''"
    by (rule priority_cascade_member)
  then have ne: "?c \<noteq> []"
    using cleaned_codes_not_Nil [of ?c "reason_codes r"] by auto
  show ?thesis
  proof (cases "parsed_codes (reason_codes r) = []")
    case True
    then show ?thesis by (simp add: clean_reason_code_eq [OF d])
  next
    case False
    with mem ne show ?thesis by (simp add: clean_reason_code_eq [OF d])
  qed
qed

text \<open>
  C7 at the row with the codes \<open>OA23,PR27\<close>: the selected code \<open>PR27\<close> is one of the
  cleaned codes.
\<close>

theorem selected_code_nonempty_and_known_witness:
  "clean_reason_code (example_row ''OA23,PR27'' ''a, b'') = Inr (''PR27'', ''b'') \<and>
   ''PR27'' \<noteq> [] \<and>
   ''PR27'' \<in> set (cleaned_codes (reason_codes (example_row ''OA23,PR27'' ''a, b'')))"
proof -
  have e: "clean_reason_code (example_row ''OA23,PR27'' ''a, b'') = Inr (''PR27'', ''b'')"
    by code_simp
  from selected_code_nonempty_and_known [of "example_row ''OA23,PR27'' ''a, b''"] e
  show ?thesis by auto
qed

subsection \<open>Claim C8\<close>




subsection \<open>Claim C9\<close>

text \<open>
  Claim C9 says that an absent description becomes \<open>MISSING\<close>. A row with the code
  \<open>CO45\<close> and a blank description cell gets the description \<open>nan\<close>: \<open>str\<close> has turned
  the missing value into text before line 55 and line 61 look for it. No row raises an
  exception (lemma \<open>clean_reason_code_never_raises\<close>).
\<close>

theorem absent_description_is_nan:
  "clean_reason_code nan_description_row = Inr (''CO45'', ''nan'')"
  by code_simp

subsection \<open>Claim C10\<close>

text \<open>
  Claim C10. When the parsed code list of a row is not empty and holds trivial codes
  only, \<open>clean_reason_code\<close> returns the code \<open>MISSING\<close> with the stripped first
  element of the comma-split descriptions, not with the description that the early
  return of line 26 gives.
\<close>

theorem all_trivial_codes_give_missing_code:
  "parsed_codes (reason_codes r) \<noteq> [] \<and>
   set (parsed_codes (reason_codes r)) \<subseteq> set exclude_trivial \<longrightarrow>
     (\<exists>d0 ds. split_descs (reason_code_descriptions r) = d0 # ds \<and>
        clean_reason_code r = Inr (''MISSING'', strip d0))"
proof
  assume a: "parsed_codes (reason_codes r) \<noteq> [] \<and>
     set (parsed_codes (reason_codes r)) \<subseteq> set exclude_trivial"
  obtain d0 ds where d: "split_descs (reason_code_descriptions r) = d0 # ds"
    using split_descs_Cons [of "reason_code_descriptions r"] by (elim exE)
  from a have c: "cleaned_codes (reason_codes r) = []"
    unfolding cleaned_codes_def by (auto simp: filter_empty_conv)
  have "desc_at [] (d0 # ds) d0 ''MISSING'' = d0"
    by (simp add: desc_at_def)
  with a have "clean_reason_code r = Inr (''MISSING'', strip d0)"
    by (simp add: clean_reason_code_eq [OF d] c priority_cascade_Nil)
  with d show "\<exists>d0 ds. split_descs (reason_code_descriptions r) = d0 # ds \<and>
        clean_reason_code r = Inr (''MISSING'', strip d0)"
    by (intro exI conjI)
qed

text \<open>
  C10 at the row with the codes \<open>PR1, PR2\<close>: the description is \<open>Deductible\<close>.
\<close>

theorem all_trivial_codes_give_missing_code_witness:
  "parsed_codes (reason_codes (example_row ''PR1, PR2'' '' Deductible , x'')) \<noteq> [] \<and>
   set (parsed_codes (reason_codes (example_row ''PR1, PR2'' '' Deductible , x'')))
     \<subseteq> set exclude_trivial \<and>
   clean_reason_code (example_row ''PR1, PR2'' '' Deductible , x'') =
     Inr (''MISSING'', ''Deductible'')"
proof -
  have h: "parsed_codes (reason_codes (example_row ''PR1, PR2'' '' Deductible , x'')) \<noteq> []"
    "set (parsed_codes (reason_codes (example_row ''PR1, PR2'' '' Deductible , x'')))
     \<subseteq> set exclude_trivial" by code_simp+
  have s: "split_descs (reason_code_descriptions (example_row ''PR1, PR2'' '' Deductible , x''))
      = ['' Deductible '', '' x'']" by code_simp
  have t: "strip '' Deductible '' = ''Deductible''" by code_simp
  from all_trivial_codes_give_missing_code [of "example_row ''PR1, PR2'' '' Deductible , x''"] h s t show ?thesis by simp
qed

end
